theory Spec2Isabelle
  imports Main "HOL-Library.Word" "HOL-Library.AList" "HOL-Library.Product_Lexorder"
begin

section \<open>The LRU-K cache (class \<open>LRU_K_Cache\<close>)\<close>

subsection \<open>Data model\<close>

text \<open>
  \<open>timestamp_t\<close> is \<open>uint64_t\<close> and \<open>size_t\<close> is a 64-bit unsigned integer; both are
  64-bit words. The cache owns its nodes through raw pointers (\<open>LRUNode*\<close>) that are
  shared between the index \<open>cache_'\<close> and the ordering structure \<open>eviction_set_'\<close>, so
  the nodes live in an explicit store \<open>heap\<close> from addresses to nodes. \<open>new\<close> takes the
  address \<open>next_addr\<close> (never handed out before), \<open>delete\<close> unmaps the address, and
  reading through an unmapped address is undefined behaviour.

  The \<open>std::unordered_map\<close> is an association list (its size is the length of the list),
  the \<open>std::set\<close> is the sequence of its elements in iteration order, and the comparator
  object the set was constructed with keeps its own copy of K in an \<open>int\<close> field
  (\<open>Compare::k_'\<close>), here \<open>compare_k_'\<close>.
\<close>

type_synonym timestamp_t = "64 word"
type_synonym size_t = "64 word"
type_synonym addr = nat

datatype error = Timestamp_overflow | Undefined_behavior

record ('k, 'v) LRUNode =
  key_' :: 'k
  value_' :: 'v
  history_' :: "timestamp_t list"
  is_evictable_' :: bool

record ('k, 'v) LRU_K_Cache =
  capacity_' :: size_t
  k_' :: size_t
  cache_' :: "('k \<times> addr) list"
  eviction_set_' :: "addr list"
  compare_k_' :: "32 word"
  current_timestamp_' :: timestamp_t
  heap :: "addr \<rightharpoonup> ('k, 'v) LRUNode"
  next_addr :: addr

text \<open>The node constructor: empty history, not evictable.\<close>

definition LRUNode :: "'k \<Rightarrow> 'v \<Rightarrow> ('k, 'v) LRUNode" where
  "LRUNode key val = \<lparr>key_' = key, value_' = val, history_' = [], is_evictable_' = False\<rparr>"

subsection \<open>The comparator\<close>

text \<open>
  \<open>Compare::operator()\<close>. The comparison \<open>history_'.size() < k_'\<close> is between a \<open>size_t\<close>
  and an \<open>int\<close>: the \<open>int\<close> is converted to \<open>size_t\<close> (sign extension). \<open>front()\<close> of an
  empty deque is undefined behaviour (\<open>None\<close>).
\<close>

definition Compare :: "32 word \<Rightarrow> ('k::linorder, 'v) LRUNode \<Rightarrow> ('k, 'v) LRUNode \<Rightarrow> bool option" where
  "Compare ck a b =
     (let kk = unat (scast ck :: size_t) in
      if length (history_' a) < kk \<and> length (history_' b) < kk then Some (key_' a < key_' b)
      else if length (history_' a) < kk then Some False
      else if length (history_' b) < kk then Some True
      else (case (history_' a, history_' b) of
              (ta # _, tb # _) \<Rightarrow>
                if ta = tb then Some (key_' a < key_' b) else Some (ta < tb)
            | _ \<Rightarrow> None))"

text \<open>The set holds pointers: comparing two elements reads both nodes from the store.\<close>

definition node_less :: "('k::linorder, 'v) LRU_K_Cache \<Rightarrow> addr \<Rightarrow> addr \<Rightarrow> bool option" where
  "node_less s p q =
     (case heap s p of
        None \<Rightarrow> None
      | Some a \<Rightarrow> (case heap s q of None \<Rightarrow> None | Some b \<Rightarrow> Compare (compare_k_' s) a b))"

subsection \<open>The ordered set\<close>

text \<open>
  \<open>std::set::insert\<close>: the element goes before the first element it is less than;
  when an equivalent element (neither less than the other) is met, nothing is inserted.
  \<open>std::set::erase(key)\<close>: the element equivalent to the key is removed, if there is one.
  Both fail when a comparison does.
\<close>

fun set_insert :: "('a \<Rightarrow> 'a \<Rightarrow> bool option) \<Rightarrow> 'a \<Rightarrow> 'a list \<Rightarrow> 'a list option" where
  "set_insert lt x [] = Some [x]"
| "set_insert lt x (y # ys) =
     (case lt x y of
        None \<Rightarrow> None
      | Some True \<Rightarrow> Some (x # y # ys)
      | Some False \<Rightarrow>
          (case lt y x of
             None \<Rightarrow> None
           | Some True \<Rightarrow> map_option ((#) y) (set_insert lt x ys)
           | Some False \<Rightarrow> Some (y # ys)))"

fun set_erase :: "('a \<Rightarrow> 'a \<Rightarrow> bool option) \<Rightarrow> 'a \<Rightarrow> 'a list \<Rightarrow> 'a list option" where
  "set_erase lt x [] = Some []"
| "set_erase lt x (y # ys) =
     (case lt x y of
        None \<Rightarrow> None
      | Some True \<Rightarrow> map_option ((#) y) (set_erase lt x ys)
      | Some False \<Rightarrow>
          (case lt y x of
             None \<Rightarrow> None
           | Some True \<Rightarrow> map_option ((#) y) (set_erase lt x ys)
           | Some False \<Rightarrow> Some ys))"

subsection \<open>Private operations\<close>

text \<open>
  \<open>ResourceAccess(node)\<close>: the clock is checked first and the function throws before
  any mutation; otherwise the node leaves the set when its history is full, the clock
  ticks, the history takes the new timestamp and drops its oldest one when longer than
  K, and a node whose history has K timestamps is marked evictable and (re)inserted.
\<close>

definition ResourceAccess ::
  "addr \<Rightarrow> ('k::linorder, 'v) LRU_K_Cache \<Rightarrow> error + ('k, 'v) LRU_K_Cache" where
  "ResourceAccess p s =
     (if current_timestamp_' s = - 1 then Inl Timestamp_overflow
      else
        case heap s p of
          None \<Rightarrow> Inl Undefined_behavior
        | Some node \<Rightarrow>
            (case (if length (history_' node) = unat (k_' s)
                   then set_erase (node_less s) p (eviction_set_' s)
                   else Some (eviction_set_' s)) of
               None \<Rightarrow> Inl Undefined_behavior
             | Some es \<Rightarrow>
                 let ts = current_timestamp_' s + 1;
                     h1 = history_' node @ [ts];
                     h2 = (if length h1 > unat (k_' s) then tl h1 else h1);
                     full = (length h2 = unat (k_' s));
                     node' = node\<lparr>history_' := h2,
                                  is_evictable_' :=
                                    (if full \<and> \<not> is_evictable_' node then True
                                     else is_evictable_' node)\<rparr>;
                     s' = s\<lparr>eviction_set_' := es, current_timestamp_' := ts,
                            heap := (heap s)(p \<mapsto> node')\<rparr>
                 in if full \<and> is_evictable_' node'
                    then (case set_insert (node_less s') p es of
                            None \<Rightarrow> Inl Undefined_behavior
                          | Some es' \<Rightarrow> Inr (s'\<lparr>eviction_set_' := es'\<rparr>))
                    else Inr s'))"

text \<open>
  \<open>Evict()\<close>: nothing below capacity; otherwise the set is walked from \<open>begin()\<close> and the
  first node marked evictable is erased from the set (by iterator), erased from the
  index under its own key, and deleted.
\<close>

fun Evict_loop ::
  "('k, 'v) LRU_K_Cache \<Rightarrow> addr list \<Rightarrow> addr list \<Rightarrow> error + ('k, 'v) LRU_K_Cache" where
  "Evict_loop s seen [] = Inr s"
| "Evict_loop s seen (p # rest) =
     (case heap s p of
        None \<Rightarrow> Inl Undefined_behavior
      | Some node \<Rightarrow>
          if is_evictable_' node
          then Inr (s\<lparr>eviction_set_' := seen @ rest,
                      cache_' := AList.delete (key_' node) (cache_' s),
                      heap := (heap s)(p := None)\<rparr>)
          else Evict_loop s (seen @ [p]) rest)"

definition Evict :: "('k, 'v) LRU_K_Cache \<Rightarrow> error + ('k, 'v) LRU_K_Cache" where
  "Evict s =
     (if length (cache_' s) < unat (capacity_' s) then Inr s
      else Evict_loop s [] (eviction_set_' s))"

subsection \<open>Public operations\<close>

text \<open>
  Every operation returns its result (or the error that ended it) together with the
  cache as the operation left it: after \<open>Timestamp_overflow\<close> (the \<open>std::runtime_error\<close>)
  that is the cache at the moment of the throw. After \<open>Undefined_behavior\<close> the cache
  that is returned means nothing.
\<close>

definition LRU_K_Cache :: "size_t \<Rightarrow> size_t \<Rightarrow> ('k, 'v) LRU_K_Cache" where
  "LRU_K_Cache cache_size k =
     \<lparr>capacity_' = cache_size, k_' = k, cache_' = [], eviction_set_' = [],
      compare_k_' = ucast k, current_timestamp_' = 0, heap = Map.empty, next_addr = 0\<rparr>"

definition Get ::
  "'k \<Rightarrow> ('k::linorder, 'v) LRU_K_Cache \<Rightarrow> (error + 'v option) \<times> ('k, 'v) LRU_K_Cache" where
  "Get key s =
     (case map_of (cache_' s) key of
        None \<Rightarrow> (Inr None, s)
      | Some p \<Rightarrow>
          (case ResourceAccess p s of
             Inl e \<Rightarrow> (Inl e, s)
           | Inr s' \<Rightarrow>
               (case heap s' p of
                  None \<Rightarrow> (Inl Undefined_behavior, s')
                | Some node \<Rightarrow> (Inr (Some (value_' node)), s'))))"

definition Put ::
  "'k \<Rightarrow> 'v \<Rightarrow> ('k::linorder, 'v) LRU_K_Cache \<Rightarrow> (error + unit) \<times> ('k, 'v) LRU_K_Cache" where
  "Put key val s =
     (case map_of (cache_' s) key of
        Some p \<Rightarrow>
          (case ResourceAccess p s of
             Inl e \<Rightarrow> (Inl e, s)
           | Inr s' \<Rightarrow>
               (case heap s' p of
                  None \<Rightarrow> (Inl Undefined_behavior, s')
                | Some node \<Rightarrow>
                    (Inr (), s'\<lparr>heap := (heap s')(p \<mapsto> node\<lparr>value_' := val\<rparr>)\<rparr>)))
      | None \<Rightarrow>
          (case Evict s of
             Inl e \<Rightarrow> (Inl e, s)
           | Inr s1 \<Rightarrow>
               let p = next_addr s1;
                   node = LRUNode key val;
                   s2 = s1\<lparr>heap := (heap s1)(p \<mapsto> node), next_addr := Suc p\<rparr>;
                   s3 = s2\<lparr>cache_' := AList.update (key_' node) p (cache_' s2)\<rparr>
               in (case ResourceAccess p s3 of
                     Inl e \<Rightarrow> (Inl e, s3)
                   | Inr s4 \<Rightarrow> (Inr (), s4))))"

definition Remove ::
  "'k \<Rightarrow> ('k::linorder, 'v) LRU_K_Cache \<Rightarrow> (error + bool) \<times> ('k, 'v) LRU_K_Cache" where
  "Remove k s =
     (case map_of (cache_' s) k of
        None \<Rightarrow> (Inr False, s)
      | Some p \<Rightarrow>
          (case heap s p of
             None \<Rightarrow> (Inl Undefined_behavior, s)
           | Some node \<Rightarrow>
               (case (if length (history_' node) = unat (k_' s) \<and> is_evictable_' node
                      then set_erase (node_less s) p (eviction_set_' s)
                      else Some (eviction_set_' s)) of
                  None \<Rightarrow> (Inl Undefined_behavior, s)
                | Some es \<Rightarrow>
                    (Inr True,
                     s\<lparr>eviction_set_' := es, cache_' := AList.delete k (cache_' s),
                       heap := (heap s)(p := None)\<rparr>))))"

definition contains :: "'k \<Rightarrow> ('k, 'v) LRU_K_Cache \<Rightarrow> bool \<times> ('k, 'v) LRU_K_Cache" where
  "contains key s = (map_of (cache_' s) key \<noteq> None, s)"

definition size_cache :: "('k, 'v) LRU_K_Cache \<Rightarrow> nat" where
  "size_cache s = length (cache_' s)"

subsection \<open>Sequences of calls\<close>

datatype ('k, 'v) call = Call_Get 'k | Call_Put 'k 'v | Call_Remove 'k | Call_contains 'k | Call_size

fun step :: "('k::linorder, 'v) call \<Rightarrow> ('k, 'v) LRU_K_Cache \<Rightarrow> ('k, 'v) LRU_K_Cache" where
  "step (Call_Get key) s = snd (Get key s)"
| "step (Call_Put key val) s = snd (Put key val s)"
| "step (Call_Remove key) s = snd (Remove key s)"
| "step (Call_contains key) s = snd (contains key s)"
| "step Call_size s = s"

fun run :: "('k::linorder, 'v) call list \<Rightarrow> ('k, 'v) LRU_K_Cache \<Rightarrow> ('k, 'v) LRU_K_Cache" where
  "run [] s = s"
| "run (c # cs) s = run cs (step c s)"

section \<open>The single-history LRU cache (class \<open>LRUCache\<close>)\<close>

subsection \<open>Data model\<close>

text \<open>
  The recency list is an intrusive doubly-linked list of heap nodes between two dummy
  nodes \<open>_head\<close> and \<open>_tail\<close>; \<open>_cache_mapper\<close> maps a key to the address of its node.
  The nodes live in the store \<open>store\<close>, a null pointer is \<open>None\<close>, and following a null
  or dangling pointer is undefined behaviour: the operation has no result (\<open>None\<close>).
  \<open>_capacity\<close> is an \<open>int\<close>.
\<close>

record ('k, 'v) Node =
  node_key :: "'k option"
  node_value :: "'v option"
  node_next :: "addr option"
  node_prev :: "addr option"

record ('k, 'v) LRUCache =
  capacity :: "32 word"
  cache_mapper :: "('k \<times> addr) list"
  head :: addr
  tail :: addr
  store :: "addr \<rightharpoonup> ('k, 'v) Node"
  next_free :: addr

text \<open>The two node constructors.\<close>

definition Node_dummy :: "('k, 'v) Node" where
  "Node_dummy = \<lparr>node_key = None, node_value = None, node_next = None, node_prev = None\<rparr>"

definition Node :: "'k \<Rightarrow> 'v \<Rightarrow> ('k, 'v) Node" where
  "Node k v = \<lparr>node_key = Some k, node_value = Some v, node_next = None, node_prev = None\<rparr>"

subsection \<open>Private operations\<close>

text \<open>\<open>link(node1, node2)\<close>: \<open>node1->next = node2; node2->prev = node1\<close>.\<close>

definition link ::
  "addr option \<Rightarrow> addr option \<Rightarrow> ('k, 'v) LRUCache \<Rightarrow> ('k, 'v) LRUCache option" where
  "link node1 node2 s =
     (case node1 of
        None \<Rightarrow> None
      | Some a \<Rightarrow>
          (case store s a of
             None \<Rightarrow> None
           | Some na \<Rightarrow>
               let s1 = s\<lparr>store := (store s)(a \<mapsto> na\<lparr>node_next := node2\<rparr>)\<rparr> in
               (case node2 of
                  None \<Rightarrow> None
                | Some b \<Rightarrow>
                    (case store s1 b of
                       None \<Rightarrow> None
                     | Some nb \<Rightarrow>
                         Some (s1\<lparr>store := (store s1)(b \<mapsto> nb\<lparr>node_prev := node1\<rparr>)\<rparr>)))))"

text \<open>\<open>add(node)\<close>: the node goes right after \<open>_head\<close>.\<close>

definition add :: "addr \<Rightarrow> ('k, 'v) LRUCache \<Rightarrow> ('k, 'v) LRUCache option" where
  "add node s =
     (case store s (head s) of
        None \<Rightarrow> None
      | Some hn \<Rightarrow>
          let head_next = node_next hn in
          (case link (Some node) head_next s of
             None \<Rightarrow> None
           | Some s1 \<Rightarrow> link (Some (head s1)) (Some node) s1))"

text \<open>\<open>remove(node)\<close>: the neighbours of the node are linked to each other.\<close>

definition remove_node :: "addr \<Rightarrow> ('k, 'v) LRUCache \<Rightarrow> ('k, 'v) LRUCache option" where
  "remove_node node s =
     (case store s node of
        None \<Rightarrow> None
      | Some n \<Rightarrow> link (node_prev n) (node_next n) s)"

subsection \<open>Public operations\<close>

definition LRUCache :: "32 word \<Rightarrow> ('k, 'v) LRUCache option" where
  "LRUCache cap =
     link (Some 0) (Some 1)
       \<lparr>capacity = cap, cache_mapper = [], head = 0, tail = 1,
        store = [0 \<mapsto> Node_dummy, 1 \<mapsto> Node_dummy], next_free = 2\<rparr>"

text \<open>
  \<open>put\<close>: a node already stored under the key is unlinked and deleted; a new node is
  allocated, indexed and added at the head; when the index is then larger than the
  capacity (the \<open>int\<close> converted to \<open>size_t\<close>), the node before \<open>_tail\<close> is unlinked,
  its key is erased from the index and the node is deleted.
\<close>

definition put :: "'k \<Rightarrow> 'v \<Rightarrow> ('k, 'v) LRUCache \<Rightarrow> ('k, 'v) LRUCache option" where
  "put k v s =
     (case (case map_of (cache_mapper s) k of
              None \<Rightarrow> Some s
            | Some old_node \<Rightarrow>
                (case remove_node old_node s of
                   None \<Rightarrow> None
                 | Some s' \<Rightarrow> Some (s'\<lparr>store := (store s')(old_node := None)\<rparr>))) of
        None \<Rightarrow> None
      | Some s1 \<Rightarrow>
          let new_node = next_free s1;
              s2 = s1\<lparr>store := (store s1)(new_node \<mapsto> Node k v), next_free := Suc new_node\<rparr>;
              s3 = s2\<lparr>cache_mapper := AList.update k new_node (cache_mapper s2)\<rparr>
          in (case add new_node s3 of
                None \<Rightarrow> None
              | Some s4 \<Rightarrow>
                  if length (cache_mapper s4) > unat (scast (capacity s4) :: size_t)
                  then (case store s4 (tail s4) of
                          None \<Rightarrow> None
                        | Some tn \<Rightarrow>
                            (case node_prev tn of
                               None \<Rightarrow> None
                             | Some tail_prev \<Rightarrow>
                                 (case remove_node tail_prev s4 of
                                    None \<Rightarrow> None
                                  | Some s5 \<Rightarrow>
                                      (case store s5 tail_prev of
                                         None \<Rightarrow> None
                                       | Some tp \<Rightarrow>
                                           let s6 = (case node_key tp of
                                                       None \<Rightarrow> s5
                                                     | Some k' \<Rightarrow>
                                                         s5\<lparr>cache_mapper :=
                                                              AList.delete k' (cache_mapper s5)\<rparr>)
                                           in Some (s6\<lparr>store := (store s6)(tail_prev := None)\<rparr>)))))
                  else Some s4))"

text \<open>\<open>get\<close>: a stored node moves to the head and its value is returned.\<close>

definition get :: "'k \<Rightarrow> ('k, 'v) LRUCache \<Rightarrow> ('v option \<times> ('k, 'v) LRUCache) option" where
  "get k s =
     (case map_of (cache_mapper s) k of
        None \<Rightarrow> Some (None, s)
      | Some node \<Rightarrow>
          (case remove_node node s of
             None \<Rightarrow> None
           | Some s1 \<Rightarrow>
               (case add node s1 of
                  None \<Rightarrow> None
                | Some s2 \<Rightarrow>
                    (case store s2 node of
                       None \<Rightarrow> None
                     | Some n \<Rightarrow> Some (node_value n, s2)))))"

subsection \<open>Sequences of calls\<close>

datatype ('k, 'v) lru_call = Lru_put 'k 'v | Lru_get 'k

fun lru_step :: "('k, 'v) lru_call \<Rightarrow> ('k, 'v) LRUCache \<Rightarrow> ('k, 'v) LRUCache option" where
  "lru_step (Lru_put k v) s = put k v s"
| "lru_step (Lru_get k) s = map_option snd (get k s)"

fun lru_run :: "('k, 'v) lru_call list \<Rightarrow> ('k, 'v) LRUCache \<Rightarrow> ('k, 'v) LRUCache option" where
  "lru_run [] s = Some s"
| "lru_run (c # cs) s = (case lru_step c s of None \<Rightarrow> None | Some s' \<Rightarrow> lru_run cs s')"

section \<open>Specification-level definitions\<close>

text \<open>
  The definitions of this section are not part of the program: they state the
  invariants of the two caches and the abstract recency list the linked list of the LRU
  cache implements.
\<close>

definition node_rank :: "32 word \<Rightarrow> ('k, 'v) LRUNode \<Rightarrow> nat \<times> timestamp_t \<times> 'k" where
  "node_rank ck n =
     (if length (history_' n) < unat (scast ck :: size_t) then (1, 0, key_' n)
      else (0, hd (history_' n), key_' n))"

definition rank :: "('k, 'v) LRU_K_Cache \<Rightarrow> addr \<Rightarrow> nat \<times> timestamp_t \<times> 'k" where
  "rank s p = node_rank (compare_k_' s) (the (heap s p))"

definition is_full :: "('k, 'v) LRU_K_Cache \<Rightarrow> ('k, 'v) LRUNode \<Rightarrow> bool" where
  "is_full s n \<longleftrightarrow> length (history_' n) = unat (k_' s)"

definition lruk_inv :: "('k::linorder, 'v) LRU_K_Cache \<Rightarrow> bool" where
  "lruk_inv s \<longleftrightarrow>
     0 < unat (k_' s) \<and>
     compare_k_' s = ucast (k_' s) \<and>
     distinct (map fst (cache_' s)) \<and>
     distinct (map snd (cache_' s)) \<and>
     (\<forall>key p. (key, p) \<in> set (cache_' s) \<longrightarrow> heap s p \<noteq> None) \<and>
     (\<forall>p n. heap s p = Some n \<longrightarrow>
        p < next_addr s \<and>
        (key_' n, p) \<in> set (cache_' s) \<and>
        length (history_' n) \<le> unat (k_' s) \<and>
        is_evictable_' n = is_full s n) \<and>
     (\<forall>p. (p \<in> set (eviction_set_' s)) = (\<exists>n. heap s p = Some n \<and> is_full s n)) \<and>
     sorted_wrt (\<lambda>p q. rank s p < rank s q) (eviction_set_' s)"

definition linked :: "(addr \<rightharpoonup> ('k, 'v) Node) \<Rightarrow> addr \<Rightarrow> addr \<Rightarrow> bool" where
  "linked h a b \<longleftrightarrow>
     (\<exists>na nb. h a = Some na \<and> h b = Some nb \<and> node_next na = Some b \<and> node_prev nb = Some a)"

definition same_frame :: "('k, 'v) LRUCache \<Rightarrow> ('k, 'v) LRUCache \<Rightarrow> bool" where
  "same_frame s s' \<longleftrightarrow>
     capacity s' = capacity s \<and> cache_mapper s' = cache_mapper s \<and> head s' = head s \<and>
     tail s' = tail s \<and> next_free s' = next_free s \<and>
     (\<forall>x. (store s' x = None) = (store s x = None)) \<and>
     (\<forall>x n n'. store s x = Some n \<longrightarrow> store s' x = Some n' \<longrightarrow>
        node_key n' = node_key n \<and> node_value n' = node_value n)"

definition dll_chain :: "('k, 'v) LRUCache \<Rightarrow> addr list \<Rightarrow> bool" where
  "dll_chain s xs \<longleftrightarrow>
     successively (linked (store s)) (head s # xs @ [tail s]) \<and> distinct (head s # xs @ [tail s])"

definition lru_inv :: "('k, 'v) LRUCache \<Rightarrow> (addr \<times> 'k \<times> 'v) list \<Rightarrow> bool" where
  "lru_inv s ps \<longleftrightarrow>
     dll_chain s (map fst ps) \<and>
     (\<forall>a k v. (a, k, v) \<in> set ps \<longrightarrow>
        (\<exists>n. store s a = Some n \<and> node_key n = Some k \<and> node_value n = Some v)) \<and>
     distinct (map (\<lambda>e. fst (snd e)) ps) \<and>
     distinct (map fst (cache_mapper s)) \<and>
     set (cache_mapper s) = (\<lambda>e. (fst (snd e), fst e)) ` set ps \<and>
     (\<forall>a. store s a \<noteq> None \<longrightarrow> a < next_free s)"

definition put_unlink_old :: "'k \<Rightarrow> ('k, 'v) LRUCache \<Rightarrow> ('k, 'v) LRUCache option" where
  "put_unlink_old k s =
     (case map_of (cache_mapper s) k of
        None \<Rightarrow> Some s
      | Some old_node \<Rightarrow>
          (case remove_node old_node s of
             None \<Rightarrow> None
           | Some s' \<Rightarrow> Some (s'\<lparr>store := (store s')(old_node := None)\<rparr>)))"

definition put_evict_tail :: "('k, 'v) LRUCache \<Rightarrow> ('k, 'v) LRUCache option" where
  "put_evict_tail s4 =
     (if length (cache_mapper s4) > unat (scast (capacity s4) :: size_t)
      then (case store s4 (tail s4) of
              None \<Rightarrow> None
            | Some tn \<Rightarrow>
                (case node_prev tn of
                   None \<Rightarrow> None
                 | Some tail_prev \<Rightarrow>
                     (case remove_node tail_prev s4 of
                        None \<Rightarrow> None
                      | Some s5 \<Rightarrow>
                          (case store s5 tail_prev of
                             None \<Rightarrow> None
                           | Some tp \<Rightarrow>
                               let s6 = (case node_key tp of
                                           None \<Rightarrow> s5
                                         | Some k' \<Rightarrow>
                                             s5\<lparr>cache_mapper :=
                                                  AList.delete k' (cache_mapper s5)\<rparr>)
                               in Some (s6\<lparr>store := (store s6)(tail_prev := None)\<rparr>)))))
      else Some s4)"

definition cap_size :: "32 word \<Rightarrow> nat" where
  "cap_size c = unat (scast c :: size_t)"

definition lru_touch :: "'k \<Rightarrow> 'v \<Rightarrow> ('k \<times> 'v) list \<Rightarrow> ('k \<times> 'v) list" where
  "lru_touch k v al = (k, v) # filter (\<lambda>e. fst e \<noteq> k) al"

definition spec_put :: "nat \<Rightarrow> 'k \<Rightarrow> 'v \<Rightarrow> ('k \<times> 'v) list \<Rightarrow> ('k \<times> 'v) list" where
  "spec_put c k v al =
     (if length (lru_touch k v al) > c then butlast (lru_touch k v al) else lru_touch k v al)"

definition spec_get :: "'k \<Rightarrow> ('k \<times> 'v) list \<Rightarrow> ('k \<times> 'v) list" where
  "spec_get k al = (case map_of al k of None \<Rightarrow> al | Some v \<Rightarrow> lru_touch k v al)"

fun spec_step :: "nat \<Rightarrow> ('k, 'v) lru_call \<Rightarrow> ('k \<times> 'v) list \<Rightarrow> ('k \<times> 'v) list" where
  "spec_step c (Lru_put k v) al = spec_put c k v al"
| "spec_step c (Lru_get k) al = spec_get k al"

fun spec_run :: "nat \<Rightarrow> ('k, 'v) lru_call list \<Rightarrow> ('k \<times> 'v) list \<Rightarrow> ('k \<times> 'v) list" where
  "spec_run c [] al = al"
| "spec_run c (x # xs) al = spec_run c xs (spec_step c x al)"

definition abs_rel :: "('k, 'v) LRUCache \<Rightarrow> ('k \<times> 'v) list \<Rightarrow> bool" where
  "abs_rel s al \<longleftrightarrow> (\<exists>ps. lru_inv s ps \<and> map snd ps = al)"

text \<open>
  The cache of capacity 1 and K = 1 that holds key 1 with value 7, when its clock and
  the only timestamp of its entry are \<open>t\<close>.
\<close>

definition clock_state :: "timestamp_t \<Rightarrow> (int, int) LRU_K_Cache" where
  "clock_state t =
     \<lparr>capacity_' = 1, k_' = 1, cache_' = [(1, 0)], eviction_set_' = [0], compare_k_' = 1,
      current_timestamp_' = t,
      heap = [0 \<mapsto> \<lparr>key_' = 1, value_' = 7, history_' = [t], is_evictable_' = True\<rparr>],
      next_addr = 1\<rparr>"

text \<open>
  Some indexed entry has full history (K recorded accesses); and the proviso of the
  conditional capacity bound along a sequence of calls: at every put of a new key made
  while the size has reached the capacity, some indexed entry has full history.
\<close>

definition has_full_history :: "('k, 'v) LRU_K_Cache \<Rightarrow> bool" where
  "has_full_history s =
     list_ex (\<lambda>(key, p). case heap s p of
                            None \<Rightarrow> False
                          | Some n \<Rightarrow> length (history_' n) = unat (k_' s)) (cache_' s)"

fun overflow_proviso :: "('k::linorder, 'v) call list \<Rightarrow> ('k, 'v) LRU_K_Cache \<Rightarrow> bool" where
  "overflow_proviso [] s = True"
| "overflow_proviso (c # cs) s =
     ((case c of
         Call_Put key val \<Rightarrow>
           map_of (cache_' s) key = None \<and> unat (capacity_' s) \<le> size_cache s
             \<longrightarrow> has_full_history s
       | _ \<Rightarrow> True) \<and>
      overflow_proviso cs (step c s))"

text \<open>
  The cache of capacity 2 and K = \<open>2^31\<close> while its two entries are filled: \<open>stamps a n\<close>
  are the \<open>n\<close> timestamps from \<open>a\<close> on; \<open>narrow_first n\<close> holds key 2 after \<open>n\<close>
  accesses; \<open>narrow_second m\<close> holds key 2 with full history and key 1 after \<open>m\<close>
  accesses.
\<close>

definition stamps :: "nat \<Rightarrow> nat \<Rightarrow> timestamp_t list" where
  "stamps a n = map of_nat [a..<a + n]"

definition narrow_first :: "nat \<Rightarrow> (int, int) LRU_K_Cache" where
  "narrow_first n =
     \<lparr>capacity_' = 2, k_' = 2147483648, cache_' = [(2, 0)],
      eviction_set_' = (if n = 2147483648 then [0] else []), compare_k_' = 2147483648,
      current_timestamp_' = of_nat n,
      heap = [0 \<mapsto> \<lparr>key_' = 2, value_' = 20, history_' = stamps 1 n,
                     is_evictable_' = (n = 2147483648)\<rparr>],
      next_addr = 1\<rparr>"

definition narrow_second :: "nat \<Rightarrow> (int, int) LRU_K_Cache" where
  "narrow_second m =
     \<lparr>capacity_' = 2, k_' = 2147483648, cache_' = [(2, 0), (1, 1)],
      eviction_set_' = (if m = 2147483648 then [1, 0] else [0]), compare_k_' = 2147483648,
      current_timestamp_' = of_nat (2147483648 + m),
      heap = [0 \<mapsto> \<lparr>key_' = 2, value_' = 20, history_' = stamps 1 2147483648,
                     is_evictable_' = True\<rparr>,
              1 \<mapsto> \<lparr>key_' = 1, value_' = 10, history_' = stamps 2147483649 m,
                     is_evictable_' = (m = 2147483648)\<rparr>],
      next_addr = 2\<rparr>"
section \<open>Machine integers\<close>

lemma scast_ucast_small:
  assumes "(k :: 64 word) < 2 ^ 31"
  shows "unat (scast (ucast k :: 32 word) :: 64 word) = unat k"
proof -
  have u: "uint k < 2 ^ 31"
    using assms by (simp add: word_less_def)
  have l1: "- (2 ^ (LENGTH(32) - 1)) \<le> uint k"
    by (rule order_trans [of _ 0]) simp_all
  have l2: "uint k < 2 ^ (LENGTH(32) - 1)"
    using u by simp
  have "sint (ucast k :: 32 word) = signed_take_bit (LENGTH(32) - 1) (uint k)"
    by (simp only: ucast_eq sint_sbintrunc')
  also have "\<dots> = uint k"
    using l1 l2 by (rule signed_take_bit_int_eq_self)
  finally have "scast (ucast k :: 32 word) = (word_of_int (uint k) :: 64 word)"
    by (simp only: scast_eq)
  then show ?thesis by simp
qed

lemma scast_positive:
  assumes "0 <s (c :: 32 word)"
  shows "unat (scast c :: 64 word) = nat (sint c)"
proof -
  have p: "0 < sint c" using assms by (simp add: word_sless_alt)
  have q: "sint c < 2 ^ 31" using sint_lt [of c] by simp
  have "uint (word_of_int (sint c) :: 64 word) = sint c mod 2 ^ LENGTH(64)"
    by (simp only: uint_word_of_int)
  also have "\<dots> = sint c"
    using p q by simp
  finally have "uint (scast c :: 64 word) = sint c" by (simp only: scast_eq)
  then show ?thesis by (simp add: unat_eq_nat_uint)
qed

section \<open>Invariants of the LRU-K cache\<close>

lemma Compare_rank:
  assumes "history_' a \<noteq> []" "history_' b \<noteq> []"
  shows "Compare ck a b = Some (node_rank ck a < node_rank ck b)"
proof -
  obtain ta ra tb rb where h: "history_' a = ta # ra" "history_' b = tb # rb"
    using assms by (meson list.exhaust)
  show ?thesis
    unfolding Compare_def node_rank_def Let_def h
    by (auto simp: less_prod_def)
qed

lemma node_less_rank:
  assumes "heap s p = Some a" "heap s q = Some b" "history_' a \<noteq> []" "history_' b \<noteq> []"
  shows "node_less s p q = Some (rank s p < rank s q)"
  using assms by (simp add: node_less_def rank_def Compare_rank)

lemma node_rank_key: "node_rank ck a = node_rank ck b \<Longrightarrow> key_' a = key_' b"
  by (auto simp: node_rank_def split: if_splits)

lemma set_insert_sorted:
  fixes f :: "'a \<Rightarrow> 'r::linorder"
  assumes "sorted_wrt (\<lambda>a b. f a < f b) ys"
    and "\<forall>y\<in>set ys. lt x y = Some (f x < f y) \<and> lt y x = Some (f y < f x)"
    and "\<forall>y\<in>set ys. f y \<noteq> f x"
  shows "\<exists>zs. set_insert lt x ys = Some zs \<and> set zs = insert x (set ys)
           \<and> sorted_wrt (\<lambda>a b. f a < f b) zs"
  using assms
proof (induction ys)
  case Nil
  then show ?case by simp
next
  case (Cons y ys)
  show ?case
  proof (cases "f x < f y")
    case True
    then have "\<forall>z\<in>set ys. f x < f z"
      using Cons.prems(1) by auto
    with True Cons.prems show ?thesis by auto
  next
    case False
    then have lt: "f y < f x" using Cons.prems(3) by (simp add: not_less le_less)
    obtain zs where zs: "set_insert lt x ys = Some zs" "set zs = insert x (set ys)"
      "sorted_wrt (\<lambda>a b. f a < f b) zs"
      using Cons.IH Cons.prems by auto
    have "set_insert lt x (y # ys) = Some (y # zs)"
      using False lt zs(1) Cons.prems(2) by simp
    moreover have "sorted_wrt (\<lambda>a b. f a < f b) (y # zs)"
      using zs lt Cons.prems(1) by auto
    ultimately show ?thesis using zs(2) by auto
  qed
qed

lemma set_erase_remove1:
  fixes f :: "'a \<Rightarrow> 'r::linorder"
  assumes "\<forall>y\<in>set ys. lt x y = Some (f x < f y) \<and> lt y x = Some (f y < f x)"
    and "\<forall>y\<in>set ys. y \<noteq> x \<longrightarrow> f y \<noteq> f x"
  shows "set_erase lt x ys = Some (remove1 x ys)"
  using assms
proof (induction ys)
  case Nil
  then show ?case by simp
next
  case (Cons y ys)
  show ?case
  proof (cases "y = x")
    case True
    then show ?thesis using Cons.prems(1) by simp
  next
    case False
    then have "f x < f y \<or> (\<not> f x < f y \<and> f y < f x)"
      using Cons.prems(2) by (auto simp: neq_iff)
    moreover have "set_erase lt x ys = Some (remove1 x ys)"
      using Cons.IH Cons.prems by simp
    ultimately show ?thesis using False Cons.prems(1) by auto
  qed
qed

lemma inv_heap_cache: "lruk_inv s \<Longrightarrow> heap s p = Some n \<Longrightarrow> (key_' n, p) \<in> set (cache_' s)"
  unfolding lruk_inv_def by blast

lemma inv_rank_inj:
  assumes "lruk_inv s" "heap s p = Some a" "heap s q = Some b" "rank s p = rank s q"
  shows "p = q"
proof -
  have "key_' a = key_' b"
    using assms(2-4) by (auto simp: rank_def dest: node_rank_key)
  moreover have "(key_' a, p) \<in> set (cache_' s)" "(key_' b, q) \<in> set (cache_' s)"
    using assms by (simp_all add: inv_heap_cache)
  moreover have "distinct (map fst (cache_' s))" using assms(1) unfolding lruk_inv_def by blast
  ultimately show ?thesis by (metis eq_key_imp_eq_value)
qed

lemma inv_member_full:
  "lruk_inv s \<Longrightarrow> (p \<in> set (eviction_set_' s)) = (\<exists>n. heap s p = Some n \<and> is_full s n)"
  unfolding lruk_inv_def by blast

lemma full_nonempty: "lruk_inv s \<Longrightarrow> is_full s n \<Longrightarrow> history_' n \<noteq> []"
proof -
  assume "lruk_inv s" "is_full s n"
  then have "0 < unat (k_' s)" "length (history_' n) = unat (k_' s)"
    unfolding lruk_inv_def is_full_def by blast+
  then show ?thesis by auto
qed

lemma inv_erase:
  assumes "lruk_inv s" "heap s p = Some n" "is_full s n"
  shows "set_erase (node_less s) p (eviction_set_' s) = Some (remove1 p (eviction_set_' s))"
proof (rule set_erase_remove1 [where f = "rank s"])
  show "\<forall>y\<in>set (eviction_set_' s).
          node_less s p y = Some (rank s p < rank s y) \<and> node_less s y p = Some (rank s y < rank s p)"
  proof
    fix y assume "y \<in> set (eviction_set_' s)"
    then obtain m where m: "heap s y = Some m" "is_full s m"
      using assms(1) by (auto simp: inv_member_full)
    have "history_' n \<noteq> []" "history_' m \<noteq> []"
      using assms m by (auto dest: full_nonempty)
    then show "node_less s p y = Some (rank s p < rank s y) \<and> node_less s y p = Some (rank s y < rank s p)"
      using assms(2) m(1) by (simp add: node_less_rank)
  qed
  show "\<forall>y\<in>set (eviction_set_' s). y \<noteq> p \<longrightarrow> rank s y \<noteq> rank s p"
    using assms by (auto simp: inv_member_full dest: inv_rank_inj)
qed

lemma rank_upd_other:
  "q \<noteq> p \<Longrightarrow>
   rank (s\<lparr>eviction_set_' := zs, current_timestamp_' := ts, heap := (heap s)(p \<mapsto> n')\<rparr>) q = rank s q"
  by (simp add: rank_def)

lemma sorted_wrt_distinct:
  "sorted_wrt (\<lambda>a b. (f a :: 'r::linorder) < f b) xs \<Longrightarrow> distinct xs"
  by (induction xs) auto

lemma inv_distinct_set: "lruk_inv s \<Longrightarrow> distinct (eviction_set_' s)"
  unfolding lruk_inv_def by (blast intro: sorted_wrt_distinct)

lemma invI:
  assumes "0 < unat (k_' s)" "compare_k_' s = ucast (k_' s)"
    and "distinct (map fst (cache_' s))" "distinct (map snd (cache_' s))"
    and "\<And>key p. (key, p) \<in> set (cache_' s) \<Longrightarrow> heap s p \<noteq> None"
    and "\<And>p n. heap s p = Some n \<Longrightarrow> p < next_addr s"
    and "\<And>p n. heap s p = Some n \<Longrightarrow> (key_' n, p) \<in> set (cache_' s)"
    and "\<And>p n. heap s p = Some n \<Longrightarrow> length (history_' n) \<le> unat (k_' s)"
    and "\<And>p n. heap s p = Some n \<Longrightarrow> is_evictable_' n = is_full s n"
    and "\<And>p. (p \<in> set (eviction_set_' s)) = (\<exists>n. heap s p = Some n \<and> is_full s n)"
    and "sorted_wrt (\<lambda>p q. rank s p < rank s q) (eviction_set_' s)"
  shows "lruk_inv s"
  unfolding lruk_inv_def
  by (intro conjI allI impI assms)

lemma invD_k: "lruk_inv s \<Longrightarrow> 0 < unat (k_' s)"
  and invD_ck: "lruk_inv s \<Longrightarrow> compare_k_' s = ucast (k_' s)"
  and invD_fst: "lruk_inv s \<Longrightarrow> distinct (map fst (cache_' s))"
  and invD_snd: "lruk_inv s \<Longrightarrow> distinct (map snd (cache_' s))"
  and invD_sorted: "lruk_inv s \<Longrightarrow> sorted_wrt (\<lambda>p q. rank s p < rank s q) (eviction_set_' s)"
  and invD_alloc: "lruk_inv s \<Longrightarrow> (key, p) \<in> set (cache_' s) \<Longrightarrow> heap s p \<noteq> None"
  and invD_fresh: "lruk_inv s \<Longrightarrow> heap s p = Some n \<Longrightarrow> p < next_addr s"
  and invD_len: "lruk_inv s \<Longrightarrow> heap s p = Some n \<Longrightarrow> length (history_' n) \<le> unat (k_' s)"
  and invD_ev: "lruk_inv s \<Longrightarrow> heap s p = Some n \<Longrightarrow> is_evictable_' n = is_full s n"
  unfolding lruk_inv_def by blast+

lemma inv_heap_upd:
  assumes "lruk_inv s" "heap s p = Some n" "key_' n' = key_' n"
    and "length (history_' n') \<le> unat (k_' s)"
    and "is_evictable_' n' \<longleftrightarrow> is_full s n'"
    and "s' = s\<lparr>eviction_set_' := zs, current_timestamp_' := ts, heap := (heap s)(p \<mapsto> n')\<rparr>"
    and "set zs = (set (eviction_set_' s) - {p}) \<union> (if is_full s n' then {p} else {})"
    and "sorted_wrt (\<lambda>a b. rank s' a < rank s' b) zs"
  shows "lruk_inv s'"
proof (rule invI)
  note I = assms(1)
  have f: "k_' s' = k_' s" "compare_k_' s' = compare_k_' s" "cache_' s' = cache_' s"
    "next_addr s' = next_addr s" "heap s' = (heap s)(p \<mapsto> n')" "eviction_set_' s' = zs"
    by (simp_all add: assms(6))
  have full: "\<And>m. is_full s' m = is_full s m" by (simp add: is_full_def f)
  show "0 < unat (k_' s')" "compare_k_' s' = ucast (k_' s')"
    "distinct (map fst (cache_' s'))" "distinct (map snd (cache_' s'))"
    using I by (simp_all add: f invD_k invD_ck invD_fst invD_snd)
  show "heap s' q \<noteq> None" if "(key, q) \<in> set (cache_' s')" for key q
    using that invD_alloc [OF I, of key q] by (simp add: f)
  show "q < next_addr s'" if "heap s' q = Some m" for q m
    using that invD_fresh [OF I] assms(2) by (cases "q = p") (simp_all add: f)
  show "(key_' m, q) \<in> set (cache_' s')" if "heap s' q = Some m" for q m
    using that inv_heap_cache [OF I] assms(2,3) by (cases "q = p") (auto simp: f)
  show "length (history_' m) \<le> unat (k_' s')" if "heap s' q = Some m" for q m
    using that invD_len [OF I] assms(4) by (cases "q = p") (auto simp: f)
  show "is_evictable_' m = is_full s' m" if "heap s' q = Some m" for q m
    using that invD_ev [OF I] assms(5) by (cases "q = p") (auto simp: f full)
  show "(q \<in> set (eviction_set_' s')) = (\<exists>m. heap s' q = Some m \<and> is_full s' m)" for q
    using inv_member_full [OF I, of q] assms(7) by (cases "q = p") (auto simp: f full)
  show "sorted_wrt (\<lambda>p q. rank s' p < rank s' q) (eviction_set_' s')"
    using assms(8) by (simp add: f)
qed

lemma inv_key_inj:
  assumes "lruk_inv s" "heap s p = Some a" "heap s q = Some b" "key_' a = key_' b"
  shows "p = q"
proof -
  have "(key_' a, p) \<in> set (cache_' s)" "(key_' b, q) \<in> set (cache_' s)"
    using assms(1-3) by (simp_all add: inv_heap_cache)
  then show ?thesis
    using invD_fst [OF assms(1)] assms(4) by (metis eq_key_imp_eq_value)
qed

lemma sorted_wrt_remove1_rank:
  "sorted_wrt P xs \<Longrightarrow> sorted_wrt P (remove1 x xs)"
  by (induction xs) (auto dest: notin_set_remove1)

lemma sorted_wrt_rank_cong:
  "(\<And>x. x \<in> set xs \<Longrightarrow> f x = g x) \<Longrightarrow>
   sorted_wrt (\<lambda>a b. (f a :: 'r::linorder) < f b) xs = sorted_wrt (\<lambda>a b. g a < g b) xs"
  by (induction xs) auto

lemma ResourceAccess_overflow:
  "current_timestamp_' s = - 1 \<Longrightarrow> ResourceAccess p s = Inl Timestamp_overflow"
  by (simp add: ResourceAccess_def)

lemma ResourceAccess_inv:
  assumes I: "lruk_inv s" and hp: "heap s p = Some n" and ts: "current_timestamp_' s \<noteq> - 1"
  shows "\<exists>s' n'. ResourceAccess p s = Inr s' \<and> lruk_inv s' \<and> heap s' = (heap s)(p \<mapsto> n') \<and>
           key_' n' = key_' n \<and> value_' n' = value_' n \<and>
           history_' n' =
             (if length (history_' n) < unat (k_' s) then history_' n else tl (history_' n))
               @ [current_timestamp_' s + 1] \<and>
           cache_' s' = cache_' s \<and> capacity_' s' = capacity_' s \<and> k_' s' = k_' s \<and>
           next_addr s' = next_addr s \<and> current_timestamp_' s' = current_timestamp_' s + 1"
proof -
  define K where "K = unat (k_' s)"
  define t where "t = current_timestamp_' s + 1"
  define h2 where "h2 = (if length (history_' n @ [t]) > K then tl (history_' n @ [t]) else history_' n @ [t])"
  define n' where "n' = n\<lparr>history_' := h2,
      is_evictable_' := (if length h2 = K \<and> \<not> is_evictable_' n then True else is_evictable_' n)\<rparr>"
  define es1 where "es1 = remove1 p (eviction_set_' s)"
  define s1 where "s1 = s\<lparr>eviction_set_' := es1, current_timestamp_' := t, heap := (heap s)(p \<mapsto> n')\<rparr>"
  have Kpos: "0 < K" using I by (simp add: K_def invD_k)
  have len: "length (history_' n) \<le> K" using invD_len [OF I hp] by (simp add: K_def)
  have ev: "is_evictable_' n = (length (history_' n) = K)"
    using invD_ev [OF I hp] by (simp add: K_def is_full_def)
  have h2: "h2 = (if length (history_' n) < K then history_' n else tl (history_' n)) @ [t]"
    using len Kpos by (cases "history_' n") (auto simp: h2_def)
  have len2: "length h2 = (if length (history_' n) < K then Suc (length (history_' n)) else K)"
    using len Kpos by (auto simp: h2)
  have erase: "(if length (history_' n) = K then set_erase (node_less s) p (eviction_set_' s)
                else Some (eviction_set_' s)) = Some es1"
  proof (cases "length (history_' n) = K")
    case True
    then show ?thesis
      using inv_erase [OF I hp] by (simp add: es1_def is_full_def K_def)
  next
    case False
    then have "p \<notin> set (eviction_set_' s)"
      using hp by (simp add: inv_member_full [OF I] is_full_def K_def)
    then show ?thesis using False by (simp add: es1_def remove1_idem)
  qed
  have set1: "set es1 = set (eviction_set_' s) - {p}"
    using inv_distinct_set [OF I] by (simp add: es1_def)
  have mem1: "heap s q = heap s1 q \<and> rank s1 q = rank s q \<and> (\<exists>m. heap s q = Some m \<and> is_full s m)"
    if "q \<in> set es1" for q
    using that by (auto simp: set1 s1_def rank_def inv_member_full [OF I])
  have "sorted_wrt (\<lambda>a b. rank s a < rank s b) es1"
    unfolding es1_def by (rule sorted_wrt_remove1_rank) (rule invD_sorted [OF I])
  then have sorted1: "sorted_wrt (\<lambda>a b. rank s1 a < rank s1 b) es1"
    using mem1 by (simp cong: sorted_wrt_rank_cong)
  have hp1: "heap s1 p = Some n'" by (simp add: s1_def)
  have key': "key_' n' = key_' n" and val': "value_' n' = value_' n" and hist': "history_' n' = h2"
    and ev': "is_evictable_' n' = (length h2 = K)"
    using ev len2 by (auto simp: n'_def)
  have len2K: "length h2 \<le> K" using len by (simp add: len2)
  have res: "\<exists>zs. (if length h2 = K then set_insert (node_less s1) p es1 else Some es1) = Some zs
              \<and> set zs = set es1 \<union> (if length h2 = K then {p} else {})
              \<and> sorted_wrt (\<lambda>a b. rank s1 a < rank s1 b) zs"
  proof (cases "length h2 = K")
    case False
    then show ?thesis using sorted1 by simp
  next
    case True
    have ne: "history_' n' \<noteq> []" using True Kpos by (auto simp: hist')
    have a: "\<forall>y\<in>set es1. node_less s1 p y = Some (rank s1 p < rank s1 y)
                \<and> node_less s1 y p = Some (rank s1 y < rank s1 p)"
    proof
      fix y assume y: "y \<in> set es1"
      then obtain m where m: "heap s y = Some m" "is_full s m" "heap s1 y = Some m"
        using mem1 by metis
      have "history_' m \<noteq> []" using m(2) I by (rule full_nonempty [rotated])
      then show "node_less s1 p y = Some (rank s1 p < rank s1 y)
                \<and> node_less s1 y p = Some (rank s1 y < rank s1 p)"
        using hp1 m(3) ne by (simp add: node_less_rank)
    qed
    have b: "\<forall>y\<in>set es1. rank s1 y \<noteq> rank s1 p"
    proof
      fix y assume y: "y \<in> set es1"
      then obtain m where m: "heap s y = Some m" "heap s1 y = Some m"
        using mem1 by metis
      have "y \<noteq> p" using y by (simp add: set1)
      then have "key_' m \<noteq> key_' n" using inv_key_inj [OF I m(1) hp] by blast
      then show "rank s1 y \<noteq> rank s1 p"
        using m(2) hp1 key' by (auto simp: rank_def dest: node_rank_key)
    qed
    show ?thesis
      using set_insert_sorted [OF sorted1 a b] True by auto
  qed
  then obtain zs where zs: "(if length h2 = K then set_insert (node_less s1) p es1 else Some es1) = Some zs"
    "set zs = set es1 \<union> (if length h2 = K then {p} else {})"
    "sorted_wrt (\<lambda>a b. rank s1 a < rank s1 b) zs"
    by blast
  define s2 where "s2 = s\<lparr>eviction_set_' := zs, current_timestamp_' := t, heap := (heap s)(p \<mapsto> n')\<rparr>"
  have s12: "s1\<lparr>eviction_set_' := zs\<rparr> = s2" by (simp add: s1_def s2_def)
  have r12: "rank s2 = rank s1" by (simp add: fun_eq_iff rank_def s1_def s2_def)
  have unf: "ResourceAccess p s =
      (if length h2 = K \<and> is_evictable_' n'
       then (case set_insert (node_less s1) p es1 of
               None \<Rightarrow> Inl Undefined_behavior
             | Some es' \<Rightarrow> Inr (s1\<lparr>eviction_set_' := es'\<rparr>))
       else Inr s1)"
    unfolding ResourceAccess_def Let_def
    apply (simp only: ts hp if_False option.case)
    apply (fold K_def t_def)
    apply (simp only: erase option.case)
    apply (fold h2_def)
    apply (fold n'_def)
    apply (fold s1_def)
    apply (rule refl)
    done
  have RA: "ResourceAccess p s = Inr s2"
  proof (cases "length h2 = K")
    case True
    then have "set_insert (node_less s1) p es1 = Some zs" using zs(1) by simp
    then show ?thesis
      using True ev' s12 by (simp add: unf)
  next
    case False
    then have "zs = es1" using zs(1) by simp
    then have "s1 = s2" by (simp add: s1_def s2_def)
    then show ?thesis
      using False by (simp add: unf)
  qed
  have "lruk_inv s2"
  proof (rule inv_heap_upd [OF I hp key' _ _ s2_def])
    show "length (history_' n') \<le> unat (k_' s)" using len2K by (simp add: hist' K_def)
    show "is_evictable_' n' = is_full s n'" by (simp add: ev' is_full_def hist' K_def)
    show "set zs = set (eviction_set_' s) - {p} \<union> (if is_full s n' then {p} else {})"
      by (simp add: zs(2) set1 is_full_def hist' K_def)
    show "sorted_wrt (\<lambda>a b. rank s2 a < rank s2 b) zs" using zs(3) by (simp add: r12)
  qed
  moreover have "history_' n' =
      (if length (history_' n) < unat (k_' s) then history_' n else tl (history_' n))
        @ [current_timestamp_' s + 1]"
    by (simp add: hist' h2 K_def t_def)
  ultimately show ?thesis
    using RA key' val' by (auto simp: s2_def t_def)
qed

lemma inv_cache_key:
  assumes "lruk_inv s" "(key, p) \<in> set (cache_' s)" "heap s p = Some n"
  shows "key_' n = key"
proof -
  have "(key_' n, p) \<in> set (cache_' s)" using assms(1,3) by (rule inv_heap_cache)
  moreover have "distinct (map snd (cache_' s))" using assms(1) by (rule invD_snd)
  ultimately show ?thesis
    using assms(2) by (metis (no_types, lifting) distinct_map inj_on_def snd_conv fst_conv)
qed

lemma rank_del_other:
  "q \<noteq> p \<Longrightarrow>
   rank (s\<lparr>eviction_set_' := zs, cache_' := c, heap := (heap s)(p := None)\<rparr>) q = rank s q"
  by (simp add: rank_def)

lemma inv_delete:
  assumes I: "lruk_inv s" and hp: "heap s p = Some n"
    and s': "s' = s\<lparr>eviction_set_' := remove1 p (eviction_set_' s),
                    cache_' := AList.delete (key_' n) (cache_' s),
                    heap := (heap s)(p := None)\<rparr>"
  shows "lruk_inv s'"
proof (rule invI)
  have f: "k_' s' = k_' s" "compare_k_' s' = compare_k_' s"
    "cache_' s' = AList.delete (key_' n) (cache_' s)"
    "next_addr s' = next_addr s" "heap s' = (heap s)(p := None)"
    "eviction_set_' s' = remove1 p (eviction_set_' s)"
    by (simp_all add: s')
  have full: "\<And>m. is_full s' m = is_full s m" by (simp add: is_full_def f)
  have mem: "(key, q) \<in> set (cache_' s') \<longleftrightarrow> (key, q) \<in> set (cache_' s) \<and> key \<noteq> key_' n" for key q
    by (auto simp: f AList.delete_eq)
  show "0 < unat (k_' s')" "compare_k_' s' = ucast (k_' s')"
    using I by (simp_all add: f invD_k invD_ck)
  show "distinct (map fst (cache_' s'))"
    using invD_fst [OF I] by (simp add: f distinct_delete)
  show "distinct (map snd (cache_' s'))"
    using invD_snd [OF I] by (simp add: f AList.delete_eq distinct_map_filter)
  show "heap s' q \<noteq> None" if "(key, q) \<in> set (cache_' s')" for key q
  proof -
    have c: "(key, q) \<in> set (cache_' s)" "key \<noteq> key_' n" using that by (simp_all add: mem)
    have "q \<noteq> p" using inv_cache_key [OF I c(1)] hp c(2) by auto
    then show ?thesis using invD_alloc [OF I c(1)] by (simp add: f)
  qed
  show "q < next_addr s'" if "heap s' q = Some m" for q m
    using that invD_fresh [OF I, of q m] by (simp add: f split: if_splits)
  show "(key_' m, q) \<in> set (cache_' s')" if "heap s' q = Some m" for q m
  proof -
    have q: "q \<noteq> p" "heap s q = Some m" using that by (auto simp: f split: if_splits)
    then have "key_' m \<noteq> key_' n" using inv_key_inj [OF I q(2) hp] by blast
    then show ?thesis using inv_heap_cache [OF I q(2)] by (simp add: mem)
  qed
  show "length (history_' m) \<le> unat (k_' s')" if "heap s' q = Some m" for q m
    using that invD_len [OF I, of q m] by (simp add: f split: if_splits)
  show "is_evictable_' m = is_full s' m" if "heap s' q = Some m" for q m
    using that invD_ev [OF I, of q m] by (simp add: f full split: if_splits)
  show "(q \<in> set (eviction_set_' s')) = (\<exists>m. heap s' q = Some m \<and> is_full s' m)" for q
    using inv_member_full [OF I, of q] inv_distinct_set [OF I]
    by (cases "q = p") (simp_all add: f full)
  have "sorted_wrt (\<lambda>a b. rank s a < rank s b) (remove1 p (eviction_set_' s))"
    by (rule sorted_wrt_remove1_rank) (rule invD_sorted [OF I])
  moreover have "rank s' q = rank s q" if "q \<in> set (remove1 p (eviction_set_' s))" for q
  proof -
    have "q \<noteq> p" using that inv_distinct_set [OF I] by auto
    then show ?thesis unfolding s' by (rule rank_del_other)
  qed
  ultimately show "sorted_wrt (\<lambda>p q. rank s' p < rank s' q) (eviction_set_' s')"
    unfolding f
    using sorted_wrt_rank_cong [of "remove1 p (eviction_set_' s)" "rank s'" "rank s"] by blast
qed

lemma Evict_below: "length (cache_' s) < unat (capacity_' s) \<Longrightarrow> Evict s = Inr s"
  by (simp add: Evict_def)

lemma Evict_empty: "eviction_set_' s = [] \<Longrightarrow> Evict s = Inr s"
  by (simp add: Evict_def)

lemma Evict_head:
  assumes I: "lruk_inv s" and cap: "\<not> length (cache_' s) < unat (capacity_' s)"
    and es: "eviction_set_' s = p # rest"
  shows "\<exists>n. heap s p = Some n \<and> is_full s n \<and>
           Evict s = Inr (s\<lparr>eviction_set_' := rest,
                             cache_' := AList.delete (key_' n) (cache_' s),
                             heap := (heap s)(p := None)\<rparr>)"
proof -
  obtain n where n: "heap s p = Some n" "is_full s n"
    using inv_member_full [OF I, of p] es by auto
  then have "is_evictable_' n" using invD_ev [OF I n(1)] by simp
  then show ?thesis using n cap es by (simp add: Evict_def)
qed

lemma Evict_inv:
  assumes I: "lruk_inv s"
  shows "\<exists>s'. Evict s = Inr s' \<and> lruk_inv s' \<and> k_' s' = k_' s \<and> capacity_' s' = capacity_' s
            \<and> current_timestamp_' s' = current_timestamp_' s \<and> next_addr s' = next_addr s"
proof (cases "length (cache_' s) < unat (capacity_' s) \<or> eviction_set_' s = []")
  case True
  then have "Evict s = Inr s" by (auto simp: Evict_below Evict_empty)
  then show ?thesis using I by simp
next
  case False
  then obtain p rest where es: "eviction_set_' s = p # rest" by (cases "eviction_set_' s") auto
  have cap: "\<not> length (cache_' s) < unat (capacity_' s)" using False by simp
  from Evict_head [OF I cap es] obtain n where n: "heap s p = Some n"
    "Evict s = Inr (s\<lparr>eviction_set_' := rest, cache_' := AList.delete (key_' n) (cache_' s),
                             heap := (heap s)(p := None)\<rparr>)"
    by blast
  have "lruk_inv (s\<lparr>eviction_set_' := rest, cache_' := AList.delete (key_' n) (cache_' s),
                             heap := (heap s)(p := None)\<rparr>)"
    using inv_delete [OF I n(1) refl] by (simp add: es)
  then show ?thesis using n(2) by simp
qed

lemma update_fresh_key: "key \<notin> fst ` set al \<Longrightarrow> AList.update key v al = al @ [(key, v)]"
  by (induction al) auto

lemma map_of_None_notin: "map_of al key = None \<Longrightarrow> key \<notin> fst ` set al"
  by (simp add: map_of_eq_None_iff)

lemma inv_next_addr_free: "lruk_inv s \<Longrightarrow> heap s (next_addr s) = None"
  using invD_fresh [of s "next_addr s"] by (cases "heap s (next_addr s)") auto

lemma inv_alloc:
  assumes I: "lruk_inv s" and new: "map_of (cache_' s) key = None"
    and s': "s' = s\<lparr>heap := (heap s)(next_addr s \<mapsto> LRUNode key val),
                    next_addr := Suc (next_addr s),
                    cache_' := AList.update key (next_addr s) (cache_' s)\<rparr>"
  shows "lruk_inv s'"
proof (rule invI)
  define p where "p = next_addr s"
  have c: "AList.update key p (cache_' s) = cache_' s @ [(key, p)]"
    using new by (simp add: update_fresh_key map_of_None_notin)
  have f: "k_' s' = k_' s" "compare_k_' s' = compare_k_' s"
    "cache_' s' = cache_' s @ [(key, p)]"
    "next_addr s' = Suc p" "heap s' = (heap s)(p \<mapsto> LRUNode key val)"
    "eviction_set_' s' = eviction_set_' s"
    using c by (simp_all add: s' p_def)
  have full: "\<And>m. is_full s' m = is_full s m" by (simp add: is_full_def f)
  have free: "heap s p = None" using I by (simp add: p_def inv_next_addr_free)
  have notin: "p \<notin> snd ` set (cache_' s)"
    using invD_alloc [OF I] free by force
  have nf: "\<not> is_full s (LRUNode key val)"
    using invD_k [OF I] by (simp add: is_full_def LRUNode_def)
  show "0 < unat (k_' s')" "compare_k_' s' = ucast (k_' s')"
    using I by (simp_all add: f invD_k invD_ck)
  show "distinct (map fst (cache_' s'))"
    using invD_fst [OF I] new by (simp add: f map_of_None_notin)
  show "distinct (map snd (cache_' s'))"
    using invD_snd [OF I] notin by (simp add: f)
  show "heap s' q \<noteq> None" if "(k, q) \<in> set (cache_' s')" for k q
    using that invD_alloc [OF I, of k q] by (auto simp: f)
  show "q < next_addr s'" if "heap s' q = Some m" for q m
    using that invD_fresh [OF I, of q m] by (auto simp: f p_def split: if_splits)
  show "(key_' m, q) \<in> set (cache_' s')" if "heap s' q = Some m" for q m
    using that inv_heap_cache [OF I, of q m] by (auto simp: f LRUNode_def split: if_splits)
  show "length (history_' m) \<le> unat (k_' s')" if "heap s' q = Some m" for q m
    using that invD_len [OF I, of q m] by (auto simp: f LRUNode_def split: if_splits)
  show "is_evictable_' m = is_full s' m" if "heap s' q = Some m" for q m
  proof (cases "q = p")
    case True
    then have "m = LRUNode key val" using that by (simp add: f)
    then show ?thesis using nf by (simp add: full LRUNode_def)
  next
    case False
    then show ?thesis using that invD_ev [OF I, of q m] by (simp add: f full)
  qed
  show "(q \<in> set (eviction_set_' s')) = (\<exists>m. heap s' q = Some m \<and> is_full s' m)" for q
    using inv_member_full [OF I, of q] free nf by (cases "q = p") (auto simp: f full)
  have "rank s' q = rank s q" if "q \<in> set (eviction_set_' s)" for q
  proof -
    have "q \<noteq> p" using that inv_member_full [OF I, of q] free by auto
    then show ?thesis by (simp add: rank_def f)
  qed
  then show "sorted_wrt (\<lambda>p q. rank s' p < rank s' q) (eviction_set_' s')"
    unfolding f
    using sorted_wrt_rank_cong [of "eviction_set_' s" "rank s'" "rank s"] invD_sorted [OF I]
    by blast
qed

lemma inv_set_value:
  assumes I: "lruk_inv s" and hp: "heap s p = Some n"
  shows "lruk_inv (s\<lparr>heap := (heap s)(p \<mapsto> n\<lparr>value_' := val\<rparr>)\<rparr>)"
proof (rule inv_heap_upd [OF I hp, where zs = "eviction_set_' s" and ts = "current_timestamp_' s"])
  let ?s' = "s\<lparr>heap := (heap s)(p \<mapsto> n\<lparr>value_' := val\<rparr>)\<rparr>"
  show "key_' (n\<lparr>value_' := val\<rparr>) = key_' n" by simp
  show "length (history_' (n\<lparr>value_' := val\<rparr>)) \<le> unat (k_' s)"
    using invD_len [OF I hp] by simp
  show "is_evictable_' (n\<lparr>value_' := val\<rparr>) = is_full s (n\<lparr>value_' := val\<rparr>)"
    using invD_ev [OF I hp] by (simp add: is_full_def)
  show "?s' = s\<lparr>eviction_set_' := eviction_set_' s, current_timestamp_' := current_timestamp_' s,
                heap := (heap s)(p \<mapsto> n\<lparr>value_' := val\<rparr>)\<rparr>"
    by simp
  show "set (eviction_set_' s) =
          set (eviction_set_' s) - {p} \<union> (if is_full s (n\<lparr>value_' := val\<rparr>) then {p} else {})"
    using inv_member_full [OF I, of p] hp by (auto simp: is_full_def)
  have "rank ?s' = rank s"
    using hp by (auto simp: fun_eq_iff rank_def node_rank_def)
  then show "sorted_wrt (\<lambda>a b. rank ?s' a < rank ?s' b) (eviction_set_' s)"
    using invD_sorted [OF I] by simp
qed

lemma inv_init: "0 < unat K \<Longrightarrow> lruk_inv (LRU_K_Cache C K)"
  by (rule invI) (simp_all add: LRU_K_Cache_def)

lemma Evict_keeps_absent:
  assumes I: "lruk_inv s" and "map_of (cache_' s) key = None" and "Evict s = Inr s'"
  shows "map_of (cache_' s') key = None"
proof (cases "length (cache_' s) < unat (capacity_' s) \<or> eviction_set_' s = []")
  case True
  then have "Evict s = Inr s" by (auto simp: Evict_below Evict_empty)
  then show ?thesis using assms by simp
next
  case False
  then obtain p rest where es: "eviction_set_' s = p # rest" by (cases "eviction_set_' s") auto
  have cap: "\<not> length (cache_' s) < unat (capacity_' s)" using False by simp
  from Evict_head [OF I cap es] obtain n where n: "heap s p = Some n" "is_full s n"
    "Evict s = Inr (s\<lparr>eviction_set_' := rest,
      cache_' := AList.delete (key_' n) (cache_' s), heap := (heap s)(p := None)\<rparr>)"
    by (elim exE conjE)
  then show ?thesis using assms(2,3) by (auto simp: delete_conv')
qed

lemma ResourceAccess_cases:
  assumes I: "lruk_inv s" and hp: "heap s p = Some n"
  shows "(current_timestamp_' s = - 1 \<and> ResourceAccess p s = Inl Timestamp_overflow) \<or>
         (current_timestamp_' s \<noteq> - 1 \<and>
          (\<exists>s' n'. ResourceAccess p s = Inr s' \<and> lruk_inv s' \<and> heap s' = (heap s)(p \<mapsto> n') \<and>
             key_' n' = key_' n \<and> value_' n' = value_' n \<and> cache_' s' = cache_' s \<and>
             capacity_' s' = capacity_' s \<and> k_' s' = k_' s))"
proof (cases "current_timestamp_' s = - 1")
  case True
  then show ?thesis by (simp add: ResourceAccess_overflow)
next
  case False
  then show ?thesis using ResourceAccess_inv [OF I hp False] by blast
qed

lemma Get_inv:
  assumes I: "lruk_inv s"
  shows "lruk_inv (snd (Get key s)) \<and> fst (Get key s) \<noteq> Inl Undefined_behavior"
proof (cases "map_of (cache_' s) key")
  case None
  then show ?thesis using I by (simp add: Get_def)
next
  case (Some p)
  then have "(key, p) \<in> set (cache_' s)" by (rule map_of_SomeD)
  then obtain n where hp: "heap s p = Some n" using invD_alloc [OF I] by blast
  from ResourceAccess_cases [OF I hp] show ?thesis
  proof (elim disjE conjE exE)
    assume "ResourceAccess p s = Inl Timestamp_overflow"
    then show ?thesis using Some I by (simp add: Get_def)
  next
    fix s' n' assume "ResourceAccess p s = Inr s'" "lruk_inv s'" "heap s' = (heap s)(p \<mapsto> n')"
    then show ?thesis using Some by (simp add: Get_def)
  qed
qed

lemma Put_inv:
  assumes I: "lruk_inv s"
  shows "lruk_inv (snd (Put key val s)) \<and> fst (Put key val s) \<noteq> Inl Undefined_behavior"
proof (cases "map_of (cache_' s) key")
  case (Some p)
  then have "(key, p) \<in> set (cache_' s)" by (rule map_of_SomeD)
  then obtain n where hp: "heap s p = Some n" using invD_alloc [OF I] by blast
  from ResourceAccess_cases [OF I hp] show ?thesis
  proof (elim disjE conjE exE)
    assume "ResourceAccess p s = Inl Timestamp_overflow"
    then show ?thesis using Some I by (simp add: Put_def)
  next
    fix s' n' assume a: "ResourceAccess p s = Inr s'" "lruk_inv s'" "heap s' = (heap s)(p \<mapsto> n')"
    then have "heap s' p = Some n'" by simp
    then have "lruk_inv (s'\<lparr>heap := (heap s')(p \<mapsto> n'\<lparr>value_' := val\<rparr>)\<rparr>)"
      using a(2) by (simp add: inv_set_value)
    then show ?thesis using Some a by (simp add: Put_def)
  qed
next
  case None
  obtain s1 where s1: "Evict s = Inr s1" "lruk_inv s1" using Evict_inv [OF I] by blast
  have abs: "map_of (cache_' s1) key = None" using Evict_keeps_absent [OF I None s1(1)] .
  define p where "p = next_addr s1"
  define s3 where "s3 = s1\<lparr>heap := (heap s1)(p \<mapsto> LRUNode key val), next_addr := Suc p,
      cache_' := AList.update key p (cache_' s1)\<rparr>"
  have I3: "lruk_inv s3" using inv_alloc [OF s1(2) abs] by (simp add: s3_def p_def)
  have hp: "heap s3 p = Some (LRUNode key val)" by (simp add: s3_def)
  have P: "Put key val s = (case ResourceAccess p s3 of Inl e \<Rightarrow> (Inl e, s3) | Inr s4 \<Rightarrow> (Inr (), s4))"
    using None s1(1) by (simp add: Put_def Let_def s3_def p_def LRUNode_def cong: sum.case_cong)
  from ResourceAccess_cases [OF I3 hp] show ?thesis
  proof (elim disjE conjE exE)
    assume "ResourceAccess p s3 = Inl Timestamp_overflow"
    then show ?thesis using I3 by (simp add: P)
  next
    fix s' n' assume "ResourceAccess p s3 = Inr s'" "lruk_inv s'"
    then show ?thesis by (simp add: P)
  qed
qed

lemma Remove_present:
  assumes I: "lruk_inv s" and k: "map_of (cache_' s) key = Some p"
  shows "\<exists>n. heap s p = Some n \<and> key_' n = key \<and>
           Remove key s = (Inr True, s\<lparr>eviction_set_' := remove1 p (eviction_set_' s),
                                        cache_' := AList.delete key (cache_' s),
                                        heap := (heap s)(p := None)\<rparr>)"
proof -
  have mem: "(key, p) \<in> set (cache_' s)" using k by (rule map_of_SomeD)
  then obtain n where hp: "heap s p = Some n" using invD_alloc [OF I] by blast
  have key: "key_' n = key" using inv_cache_key [OF I mem hp] .
  have ev: "is_evictable_' n = is_full s n" using invD_ev [OF I hp] .
  have "(if length (history_' n) = unat (k_' s) \<and> is_evictable_' n
         then set_erase (node_less s) p (eviction_set_' s) else Some (eviction_set_' s))
        = Some (remove1 p (eviction_set_' s))"
  proof (cases "is_full s n")
    case True
    then show ?thesis using inv_erase [OF I hp True] ev by (simp add: is_full_def)
  next
    case False
    then have "p \<notin> set (eviction_set_' s)" using hp by (simp add: inv_member_full [OF I])
    then show ?thesis using False ev by (simp add: remove1_idem is_full_def)
  qed
  then show ?thesis using k hp key by (simp add: Remove_def)
qed

lemma Remove_inv:
  assumes I: "lruk_inv s"
  shows "lruk_inv (snd (Remove key s)) \<and> fst (Remove key s) \<noteq> Inl Undefined_behavior"
proof (cases "map_of (cache_' s) key")
  case None
  then show ?thesis using I by (simp add: Remove_def)
next
  case (Some p)
  obtain n where n: "heap s p = Some n" "key_' n = key"
    "Remove key s = (Inr True, s\<lparr>eviction_set_' := remove1 p (eviction_set_' s),
        cache_' := AList.delete key (cache_' s), heap := (heap s)(p := None)\<rparr>)"
    using Remove_present [OF I Some] by blast
  have "lruk_inv (s\<lparr>eviction_set_' := remove1 p (eviction_set_' s),
        cache_' := AList.delete key (cache_' s), heap := (heap s)(p := None)\<rparr>)"
    using inv_delete [OF I n(1) refl] by (simp add: n(2))
  then show ?thesis by (simp add: n(3))
qed

lemma step_inv: "lruk_inv s \<Longrightarrow> lruk_inv (step c s)"
  by (cases c) (simp_all add: Get_inv Put_inv Remove_inv contains_def)

lemma run_inv: "lruk_inv s \<Longrightarrow> lruk_inv (run cs s)"
  by (induction cs arbitrary: s) (simp_all add: step_inv)

lemma reachable_inv: "0 < unat K \<Longrightarrow> lruk_inv (run cs (LRU_K_Cache C K))"
  by (simp add: run_inv inv_init)

lemma Evict_fields:
  assumes "Evict s = Inr s'"
  shows "k_' s' = k_' s \<and> capacity_' s' = capacity_' s \<and> compare_k_' s' = compare_k_' s \<and>
         current_timestamp_' s' = current_timestamp_' s \<and> next_addr s' = next_addr s"
proof -
  have "Evict_loop s seen es = Inr s' \<Longrightarrow>
        k_' s' = k_' s \<and> capacity_' s' = capacity_' s \<and> compare_k_' s' = compare_k_' s \<and>
        current_timestamp_' s' = current_timestamp_' s \<and> next_addr s' = next_addr s" for seen es
    by (induction s seen es rule: Evict_loop.induct) (auto split: option.splits if_splits)
  then show ?thesis using assms by (auto simp: Evict_def split: if_splits)
qed

lemma ResourceAccess_fields:
  assumes "ResourceAccess p s = Inr s'"
  shows "k_' s' = k_' s \<and> capacity_' s' = capacity_' s \<and> compare_k_' s' = compare_k_' s \<and>
         cache_' s' = cache_' s \<and> next_addr s' = next_addr s"
  using assms by (auto simp: ResourceAccess_def Let_def split: if_splits option.splits)

lemma Put_fields:
  "k_' (snd (Put key val s)) = k_' s \<and> capacity_' (snd (Put key val s)) = capacity_' s"
proof (cases "map_of (cache_' s) key")
  case (Some p)
  then show ?thesis
    by (auto simp: Put_def split: sum.splits option.splits dest: ResourceAccess_fields)
next
  case None
  then show ?thesis
    by (auto simp: Put_def Let_def split: sum.splits dest!: ResourceAccess_fields Evict_fields)
qed

lemma Get_fields:
  "k_' (snd (Get key s)) = k_' s \<and> capacity_' (snd (Get key s)) = capacity_' s \<and>
   cache_' (snd (Get key s)) = cache_' s"
  by (auto simp: Get_def split: sum.splits option.splits dest: ResourceAccess_fields)

lemma Remove_fields:
  "k_' (snd (Remove key s)) = k_' s \<and> capacity_' (snd (Remove key s)) = capacity_' s"
  by (auto simp: Remove_def split: option.splits)

lemma step_fields: "k_' (step c s) = k_' s \<and> capacity_' (step c s) = capacity_' s"
  by (cases c) (simp_all add: Put_fields Get_fields Remove_fields contains_def)

lemma run_k: "k_' (run cs s) = k_' s"
  by (induction cs arbitrary: s) (simp_all add: step_fields)

lemma run_capacity: "capacity_' (run cs s) = capacity_' s"
  by (induction cs arbitrary: s) (simp_all add: step_fields)

lemma init_fields:
  "k_' (LRU_K_Cache C K) = K" "capacity_' (LRU_K_Cache C K) = C"
  "cache_' (LRU_K_Cache C K) = []" "eviction_set_' (LRU_K_Cache C K) = []"
  "current_timestamp_' (LRU_K_Cache C K) = 0" "compare_k_' (LRU_K_Cache C K) = ucast K"
  by (simp_all add: LRU_K_Cache_def)

lemma length_delete_present:
  "distinct (map fst al) \<Longrightarrow> map_of al k = Some v \<Longrightarrow> length (AList.delete k al) = length al - 1"
proof (induction al)
  case (Cons a al)
  show ?case
  proof (cases "fst a = k")
    case True
    then have "k \<notin> fst ` set al" using Cons.prems(1) by auto
    then show ?thesis using True by simp
  next
    case False
    then have "map_of al k = Some v" using Cons.prems(2) by (cases a) auto
    then have "length (AList.delete k al) = length al - 1" "al \<noteq> []"
      using Cons.IH Cons.prems(1) by auto
    then show ?thesis using False by (cases al) auto
  qed
qed simp

lemma inv_lookup:
  assumes "lruk_inv s" "heap s p = Some n"
  shows "map_of (cache_' s) (key_' n) = Some p"
  using inv_heap_cache [OF assms] invD_fst [OF assms(1)] by simp

lemma Evict_keeps_partial:
  assumes I: "lruk_inv s" and E: "Evict s = Inr s'" and hp: "heap s p = Some n"
    and nf: "\<not> is_full s n"
  shows "heap s' p = Some n \<and> map_of (cache_' s') (key_' n) = Some p"
proof (cases "length (cache_' s) < unat (capacity_' s) \<or> eviction_set_' s = []")
  case True
  then have "Evict s = Inr s" by (auto simp: Evict_below Evict_empty)
  then show ?thesis using E hp inv_lookup [OF I hp] by simp
next
  case False
  then obtain q rest where es: "eviction_set_' s = q # rest" by (cases "eviction_set_' s") auto
  have cap: "\<not> length (cache_' s) < unat (capacity_' s)" using False by simp
  from Evict_head [OF I cap es] obtain m where m: "heap s q = Some m" "is_full s m"
    "Evict s = Inr (s\<lparr>eviction_set_' := rest,
      cache_' := AList.delete (key_' m) (cache_' s), heap := (heap s)(q := None)\<rparr>)"
    by (elim exE conjE)
  have "p \<noteq> q" using m(1,2) hp nf by auto
  moreover have "key_' n \<noteq> key_' m" using inv_key_inj [OF I hp m(1)] \<open>p \<noteq> q\<close> by blast
  ultimately show ?thesis using E m(3) hp inv_lookup [OF I hp] by auto
qed

lemma Put_new_cache:
  assumes I: "lruk_inv s" and new: "map_of (cache_' s) key = None" and E: "Evict s = Inr s1"
  shows "cache_' (snd (Put key val s)) = cache_' s1 @ [(key, next_addr s1)] \<and>
         (\<forall>q. heap s1 q = None \<and> q \<noteq> next_addr s1 \<longrightarrow> heap (snd (Put key val s)) q = None) \<and>
         set (eviction_set_' (snd (Put key val s))) \<subseteq> insert (next_addr s1) (set (eviction_set_' s1))"
proof -
  have I1: "lruk_inv s1" using Evict_inv [OF I] E by auto
  have abs: "map_of (cache_' s1) key = None" using Evict_keeps_absent [OF I new E] .
  define p where "p = next_addr s1"
  define s3 where "s3 = s1\<lparr>heap := (heap s1)(p \<mapsto> LRUNode key val), next_addr := Suc p,
      cache_' := AList.update key p (cache_' s1)\<rparr>"
  have I3: "lruk_inv s3" using inv_alloc [OF I1 abs] by (simp add: s3_def p_def)
  have hp: "heap s3 p = Some (LRUNode key val)" by (simp add: s3_def)
  have c3: "cache_' s3 = cache_' s1 @ [(key, p)]"
    using abs by (simp add: s3_def update_fresh_key map_of_None_notin)
  have P: "Put key val s = (case ResourceAccess p s3 of Inl e \<Rightarrow> (Inl e, s3) | Inr s4 \<Rightarrow> (Inr (), s4))"
    using new E by (simp add: Put_def Let_def s3_def p_def LRUNode_def cong: sum.case_cong)
  show ?thesis
  proof (cases "current_timestamp_' s3 = - 1")
    case True
    then have "Put key val s = (Inl Timestamp_overflow, s3)"
      by (simp add: P ResourceAccess_overflow)
    then show ?thesis using c3 by (auto simp: p_def s3_def)
  next
    case False
    from ResourceAccess_inv [OF I3 hp False] obtain s4 n' where s4: "ResourceAccess p s3 = Inr s4"
      "lruk_inv s4" "heap s4 = (heap s3)(p \<mapsto> n')" "cache_' s4 = cache_' s3"
      by (elim exE conjE)
    have "set (eviction_set_' s4) \<subseteq> insert p (set (eviction_set_' s1))"
    proof
      fix q assume "q \<in> set (eviction_set_' s4)"
      then obtain m where m: "heap s4 q = Some m" "is_full s4 m"
        using inv_member_full [OF s4(2), of q] by auto
      show "q \<in> insert p (set (eviction_set_' s1))"
      proof (cases "q = p")
        case False
        then have "heap s3 q = Some m" using m(1) s4(3) by simp
        moreover have "is_full s3 m"
          using m(2) ResourceAccess_fields [OF s4(1)] by (simp add: is_full_def)
        ultimately have "q \<in> set (eviction_set_' s3)" using inv_member_full [OF I3, of q] by auto
        then show ?thesis by (simp add: s3_def)
      qed simp
    qed
    moreover have "heap s4 q = None" if "heap s1 q = None" "q \<noteq> p" for q
      using that by (simp add: s4(3) s3_def)
    moreover have "Put key val s = (Inr (), s4)" by (simp add: P s4(1))
    ultimately show ?thesis using c3 s4(4) by (auto simp: p_def)
  qed
qed

lemma Put_existing_cache:
  assumes I: "lruk_inv s" and ex: "map_of (cache_' s) key = Some p"
  shows "cache_' (snd (Put key val s)) = cache_' s"
proof -
  have "(key, p) \<in> set (cache_' s)" using ex by (rule map_of_SomeD)
  then obtain n where hp: "heap s p = Some n" using invD_alloc [OF I] by blast
  from ResourceAccess_cases [OF I hp] show ?thesis
  proof (elim disjE conjE exE)
    assume "ResourceAccess p s = Inl Timestamp_overflow"
    then show ?thesis using ex by (simp add: Put_def)
  next
    fix s' n' assume a: "ResourceAccess p s = Inr s'" "heap s' = (heap s)(p \<mapsto> n')"
      "cache_' s' = cache_' s"
    then show ?thesis using ex by (simp add: Put_def)
  qed
qed

section \<open>The linked list of the LRU cache and its abstraction\<close>

lemma link_works:
  assumes "store s a \<noteq> None" "store s b \<noteq> None"
  shows "\<exists>s'. link (Some a) (Some b) s = Some s' \<and> same_frame s s' \<and>
           (\<forall>x y. linked (store s') x y \<longleftrightarrow>
                    (x = a \<and> y = b) \<or> (x \<noteq> a \<and> y \<noteq> b \<and> linked (store s) x y))"
proof -
  obtain na nb where n: "store s a = Some na" "store s b = Some nb"
    using assms by auto
  define nb' where "nb' = (if b = a then na\<lparr>node_next := Some b\<rparr> else nb)"
  define s' where "s' = s\<lparr>store := (store s)(a \<mapsto> na\<lparr>node_next := Some b\<rparr>,
                                        b \<mapsto> nb'\<lparr>node_prev := Some a\<rparr>)\<rparr>"
  have l: "link (Some a) (Some b) s = Some s'"
    using n by (auto simp: link_def Let_def s'_def nb'_def)
  have f: "same_frame s s'"
    using n by (auto simp: same_frame_def s'_def nb'_def)
  have "linked (store s') x y \<longleftrightarrow> (x = a \<and> y = b) \<or> (x \<noteq> a \<and> y \<noteq> b \<and> linked (store s) x y)"
    for x y
    using n by (auto simp: linked_def s'_def nb'_def)
  then show ?thesis using l f by blast
qed

lemma successively_mono_strong:
  assumes "successively P xs"
    and "\<And>x y. x \<in> set (butlast xs) \<Longrightarrow> y \<in> set (tl xs) \<Longrightarrow> P x y \<Longrightarrow> Q x y"
  shows "successively Q xs"
  using assms
proof (induction P xs rule: successively.induct)
  case (3 P x y xs)
  have "successively Q (y # xs)"
  proof (rule "3.IH")
    show "successively P (y # xs)" using "3.prems"(1) by simp
    show "Q a b" if "a \<in> set (butlast (y # xs))" "b \<in> set (tl (y # xs))" "P a b" for a b
      using that by (intro "3.prems"(2)) (auto split: if_splits)
  qed
  moreover have "Q x y" using "3.prems" by auto
  ultimately show ?case by simp
qed simp_all

lemma chain_neighbours:
  assumes "successively (linked h) (A @ a # B)" "A \<noteq> []" "B \<noteq> []"
  shows "linked h (last A) a" "linked h a (hd B)"
  using assms by (auto simp: successively_append_iff successively_Cons)

lemma chain_remove:
  assumes ch: "successively (linked h) (A @ a # B)" and d: "distinct (A @ a # B)"
    and ne: "A \<noteq> []" "B \<noteq> []"
    and h': "\<And>x y. linked h' x y \<longleftrightarrow>
               (x = last A \<and> y = hd B) \<or> (x \<noteq> last A \<and> y \<noteq> hd B \<and> linked h x y)"
  shows "successively (linked h') (A @ B)"
proof -
  have A: "successively (linked h) A" and B: "successively (linked h) B"
    using ch by (auto simp: successively_append_iff successively_Cons)
  have lastA: "last A \<in> set A" and hdB: "hd B \<in> set B" using ne by auto
  have "successively (linked h') A"
  proof (rule successively_mono_strong [OF A])
    fix x y assume x: "x \<in> set (butlast A)" and y: "y \<in> set (tl A)" and l: "linked h x y"
    have "distinct A" using d by simp
    then have "x \<noteq> last A"
      using x ne(1) by (metis append_butlast_last_id distinct_append disjoint_iff list.set_intros(1))
    moreover have "y \<in> set A" using y ne(1) by (auto dest: list.set_sel(2))
    then have "y \<noteq> hd B" using hdB d by auto
    ultimately show "linked h' x y" using l by (simp add: h')
  qed
  moreover have "successively (linked h') B"
  proof (rule successively_mono_strong [OF B])
    fix x y assume x: "x \<in> set (butlast B)" and y: "y \<in> set (tl B)" and l: "linked h x y"
    have "x \<in> set B" using x by (auto dest: in_set_butlastD)
    then have "x \<noteq> last A" using lastA d by auto
    moreover have "distinct B" using d by simp
    then have "y \<noteq> hd B"
      using y ne(2) by (metis distinct.simps(2) list.collapse)
    ultimately show "linked h' x y" using l by (simp add: h')
  qed
  moreover have "linked h' (last A) (hd B)" by (simp add: h')
  ultimately show ?thesis using ne by (simp add: successively_append_iff)
qed

lemma chain_add:
  assumes ch: "successively (linked h) (p # R)" and d: "distinct (p # R)" and ne: "R \<noteq> []"
    and a: "a \<notin> set (p # R)"
    and h1: "\<And>x y. linked h1 x y \<longleftrightarrow>
               (x = a \<and> y = hd R) \<or> (x \<noteq> a \<and> y \<noteq> hd R \<and> linked h x y)"
    and h2: "\<And>x y. linked h2 x y \<longleftrightarrow>
               (x = p \<and> y = a) \<or> (x \<noteq> p \<and> y \<noteq> a \<and> linked h1 x y)"
  shows "successively (linked h2) (p # a # R)"
proof -
  have R: "successively (linked h) R" using ch by (auto simp: successively_Cons)
  have hdR: "hd R \<in> set R" using ne by simp
  have "successively (linked h2) R"
  proof (rule successively_mono_strong [OF R])
    fix x y assume x: "x \<in> set (butlast R)" and y: "y \<in> set (tl R)" and l: "linked h x y"
    have xR: "x \<in> set R" using x by (auto dest: in_set_butlastD)
    have yR: "y \<in> set R" using y ne by (auto dest: list.set_sel(2))
    have "distinct R" using d by simp
    then have "y \<noteq> hd R" using y ne by (metis distinct.simps(2) list.collapse)
    moreover have "x \<noteq> a" "y \<noteq> a" "x \<noteq> p" using xR yR a d by auto
    ultimately show "linked h2 x y" using l by (simp add: h1 h2)
  qed
  moreover have "linked h2 a (hd R)" using a hdR d by (auto simp: h1 h2)
  moreover have "linked h2 p a" by (simp add: h2)
  ultimately show ?thesis using ne by (simp add: successively_Cons)
qed

lemma same_frame_refl: "same_frame s s"
  by (simp add: same_frame_def)

lemma same_frameD:
  assumes "same_frame s s'"
  shows "capacity s' = capacity s" "cache_mapper s' = cache_mapper s" "head s' = head s"
    "tail s' = tail s" "next_free s' = next_free s" "(store s' x = None) = (store s x = None)"
proof -
  have c: "capacity s' = capacity s \<and> cache_mapper s' = cache_mapper s \<and> head s' = head s \<and>
     tail s' = tail s \<and> next_free s' = next_free s \<and>
     (\<forall>x. (store s' x = None) = (store s x = None))"
    using assms unfolding same_frame_def by (elim conjE, intro conjI)
  show "capacity s' = capacity s" using c by (elim conjE)
  show "cache_mapper s' = cache_mapper s" using c by (elim conjE)
  show "head s' = head s" using c by (elim conjE)
  show "tail s' = tail s" using c by (elim conjE)
  show "next_free s' = next_free s" using c by (elim conjE)
  have "\<forall>x. (store s' x = None) = (store s x = None)" using c by (elim conjE)
  then show "(store s' x = None) = (store s x = None)" by (rule spec)
qed

lemma same_frame_fields:
  assumes "same_frame s s'" "store s x = Some n" "store s' x = Some n'"
  shows "node_key n' = node_key n" "node_value n' = node_value n"
proof -
  have "\<forall>x n n'. store s x = Some n \<longrightarrow> store s' x = Some n' \<longrightarrow>
        node_key n' = node_key n \<and> node_value n' = node_value n"
    using assms(1) unfolding same_frame_def by (elim conjE)
  then show "node_key n' = node_key n" "node_value n' = node_value n"
    using assms(2,3) by blast+
qed

lemma same_frame_node:
  assumes "same_frame s s'" "store s x = Some n"
  shows "\<exists>n'. store s' x = Some n' \<and> node_key n' = node_key n \<and> node_value n' = node_value n"
proof -
  obtain n' where n': "store s' x = Some n'"
    using same_frameD(6) [OF assms(1), of x] assms(2) by (cases "store s' x") auto
  then show ?thesis using same_frame_fields [OF assms n'] by simp
qed

lemma same_frameI:
  assumes "capacity s' = capacity s" "cache_mapper s' = cache_mapper s" "head s' = head s"
    "tail s' = tail s" "next_free s' = next_free s" "\<And>x. (store s' x = None) = (store s x = None)"
    "\<And>x n n'. store s x = Some n \<Longrightarrow> store s' x = Some n' \<Longrightarrow>
        node_key n' = node_key n \<and> node_value n' = node_value n"
  shows "same_frame s s'"
  unfolding same_frame_def by (intro conjI allI impI assms; assumption)

lemma same_frame_trans:
  assumes "same_frame s s1" "same_frame s1 s2"
  shows "same_frame s s2"
proof (rule same_frameI)
  show "capacity s2 = capacity s" "cache_mapper s2 = cache_mapper s" "head s2 = head s"
    "tail s2 = tail s" "next_free s2 = next_free s"
    using same_frameD [OF assms(1)] same_frameD [OF assms(2)] by simp_all
  show "(store s2 x = None) = (store s x = None)" for x
    using same_frameD(6) [OF assms(1)] same_frameD(6) [OF assms(2)] by simp
  show "node_key n2 = node_key n \<and> node_value n2 = node_value n"
    if "store s x = Some n" "store s2 x = Some n2" for x n n2
  proof -
    note sx = that
    obtain n1 where n1: "store s1 x = Some n1" "node_key n1 = node_key n" "node_value n1 = node_value n"
      using same_frame_node [OF assms(1) sx(1)] by auto
    show ?thesis
      using same_frame_fields [OF assms(2) n1(1) sx(2)] n1(2,3) by simp
  qed
qed

lemma linked_alloc: "linked h a b \<Longrightarrow> h a \<noteq> None \<and> h b \<noteq> None"
  by (auto simp: linked_def)

lemma remove_node_works:
  assumes ch: "dll_chain s xs" and a: "a \<in> set xs"
  shows "\<exists>s'. remove_node a s = Some s' \<and> same_frame s s' \<and> dll_chain s' (remove1 a xs)"
proof -
  obtain ys zs where xs: "xs = ys @ a # zs" "a \<notin> set ys"
    using a by (meson split_list_first)
  define A where "A = head s # ys"
  define B where "B = zs @ [tail s]"
  have L: "head s # xs @ [tail s] = A @ a # B" by (simp add: A_def B_def xs)
  have ne: "A \<noteq> []" "B \<noteq> []" by (simp_all add: A_def B_def)
  have su: "successively (linked (store s)) (A @ a # B)" and d: "distinct (A @ a # B)"
    using ch by (simp_all add: dll_chain_def L)
  have l1: "linked (store s) (last A) a" and l2: "linked (store s) a (hd B)"
    using chain_neighbours [OF su ne] by simp_all
  then obtain n where n: "store s a = Some n" "node_prev n = Some (last A)" "node_next n = Some (hd B)"
    by (auto simp: linked_def)
  have al: "store s (last A) \<noteq> None" "store s (hd B) \<noteq> None"
    using l1 l2 by (auto dest: linked_alloc)
  from link_works [OF al] obtain s' where s': "link (Some (last A)) (Some (hd B)) s = Some s'"
    "same_frame s s'"
    "\<And>x y. linked (store s') x y \<longleftrightarrow>
        (x = last A \<and> y = hd B) \<or> (x \<noteq> last A \<and> y \<noteq> hd B \<and> linked (store s) x y)"
    by blast
  have "successively (linked (store s')) (A @ B)"
    by (rule chain_remove [OF su d ne s'(3)])
  moreover have "distinct (A @ B)" using d by auto
  moreover have "remove1 a xs = ys @ zs" using xs by (simp add: remove1_append)
  ultimately have "dll_chain s' (remove1 a xs)"
    using same_frameD(3,4) [OF s'(2)] by (simp add: dll_chain_def A_def B_def)
  moreover have "remove_node a s = Some s'" using n s'(1) by (simp add: remove_node_def)
  ultimately show ?thesis using s'(2) by blast
qed

lemma add_works:
  assumes ch: "dll_chain s xs" and a: "a \<notin> set (head s # xs @ [tail s])" and al: "store s a \<noteq> None"
  shows "\<exists>s'. add a s = Some s' \<and> same_frame s s' \<and> dll_chain s' (a # xs)"
proof -
  define R where "R = xs @ [tail s]"
  have ne: "R \<noteq> []" by (simp add: R_def)
  have su: "successively (linked (store s)) (head s # R)" and d: "distinct (head s # R)"
    using ch by (simp_all add: dll_chain_def R_def)
  have l: "linked (store s) (head s) (hd R)"
    using su ne by (simp add: successively_Cons)
  then obtain hn where hn: "store s (head s) = Some hn" "node_next hn = Some (hd R)"
    by (auto simp: linked_def)
  have al1: "store s (hd R) \<noteq> None" using l by (auto dest: linked_alloc)
  from link_works [OF al al1] obtain s1 where s1: "link (Some a) (Some (hd R)) s = Some s1"
    "same_frame s s1"
    "\<And>x y. linked (store s1) x y \<longleftrightarrow>
        (x = a \<and> y = hd R) \<or> (x \<noteq> a \<and> y \<noteq> hd R \<and> linked (store s) x y)"
    by blast
  have h1: "head s1 = head s" using same_frameD(3) [OF s1(2)] .
  have al2: "store s1 (head s) \<noteq> None" "store s1 a \<noteq> None"
    using same_frameD(6) [OF s1(2)] hn(1) al by simp_all
  from link_works [OF al2] obtain s2 where s2: "link (Some (head s)) (Some a) s1 = Some s2"
    "same_frame s1 s2"
    "\<And>x y. linked (store s2) x y \<longleftrightarrow>
        (x = head s \<and> y = a) \<or> (x \<noteq> head s \<and> y \<noteq> a \<and> linked (store s1) x y)"
    by blast
  have sf: "same_frame s s2" using same_frame_trans [OF s1(2) s2(2)] .
  have "successively (linked (store s2)) (head s # a # R)"
    using chain_add [OF su d ne _ s1(3) s2(3)] a by (simp add: R_def)
  moreover have "distinct (head s # a # R)" using d a by (auto simp: R_def)
  ultimately have "dll_chain s2 (a # xs)"
    using same_frameD(3,4) [OF sf] by (simp add: dll_chain_def R_def)
  moreover have "add a s = Some s2"
    using hn s1(1) s2(1) h1 by (simp add: add_def)
  ultimately show ?thesis using sf by blast
qed

lemma linked_upd_other:
  "x \<noteq> a \<Longrightarrow> y \<noteq> a \<Longrightarrow> linked (h(a := v)) x y = linked h x y"
  by (simp add: linked_def)

lemma successively_alloc_all:
  "successively (linked h) L \<Longrightarrow> 2 \<le> length L \<Longrightarrow> \<forall>x\<in>set L. h x \<noteq> None"
proof (induction "linked h" L rule: successively.induct)
  case (3 a b L)
  have ab: "h a \<noteq> None" "h b \<noteq> None" using "3.prems"(1) by (auto dest: linked_alloc)
  show ?case
  proof (cases "L = []")
    case True
    then show ?thesis using ab by auto
  next
    case False
    then have "2 \<le> length (b # L)" by (cases L) auto
    then have "\<forall>y\<in>set (b # L). h y \<noteq> None"
      using "3.hyps" "3.prems"(1) by simp
    then show ?thesis using ab by auto
  qed
qed simp_all

lemma successively_alloc:
  assumes "successively (linked h) L" "2 \<le> length L" "x \<in> set L"
  shows "h x \<noteq> None"
  using successively_alloc_all [OF assms(1,2)] assms(3) by blast

lemma chain_alloc:
  assumes "dll_chain s xs" "x \<in> set (head s # xs @ [tail s])"
  shows "store s x \<noteq> None"
proof (rule successively_alloc)
  show "successively (linked (store s)) (head s # xs @ [tail s])"
    using assms(1) by (simp add: dll_chain_def)
  show "2 \<le> length (head s # xs @ [tail s])" by simp
  show "x \<in> set (head s # xs @ [tail s])" by (rule assms(2))
qed

lemma chain_store_upd:
  assumes "dll_chain s xs" "a \<notin> set (head s # xs @ [tail s])"
  shows "dll_chain (s\<lparr>store := (store s)(a := v)\<rparr>) xs"
proof -
  have "successively (linked (store s)) (head s # xs @ [tail s])"
    using assms(1) by (simp add: dll_chain_def)
  then have "successively (linked ((store s)(a := v))) (head s # xs @ [tail s])"
  proof (rule successively_mono_strong)
    fix x y
    assume "x \<in> set (butlast (head s # xs @ [tail s]))" "y \<in> set (tl (head s # xs @ [tail s]))"
      and l: "linked (store s) x y"
    then have "x \<in> set (head s # xs @ [tail s])" "y \<in> set (head s # xs @ [tail s])"
      by (auto dest: in_set_butlastD simp del: butlast.simps)
    then have "x \<noteq> a" "y \<noteq> a" using assms(2) by auto
    then show "linked ((store s)(a := v)) x y" using l by (simp add: linked_upd_other)
  qed
  then show ?thesis using assms(1) by (simp add: dll_chain_def)
qed

lemma map_fst_remove1:
  "distinct (map fst ps) \<Longrightarrow> e \<in> set ps \<Longrightarrow> map fst (remove1 e ps) = remove1 (fst e) (map fst ps)"
proof (induction ps)
  case (Cons p ps)
  then show ?case by (cases "p = e") (auto simp: rev_image_eqI)
qed simp

lemma lru_inv_size:
  assumes "lru_inv s ps"
  shows "length (cache_mapper s) = length ps"
proof -
  have d: "distinct (cache_mapper s)"
    using assms unfolding lru_inv_def by (metis distinct_map)
  have dp: "distinct (map (\<lambda>e. fst (snd e)) ps)"
    using assms unfolding lru_inv_def by (elim conjE)
  have "distinct (map (\<lambda>e. (fst (snd e), fst e)) ps)"
    using dp by (induction ps) (auto simp: image_iff)
  then have "card ((\<lambda>e. (fst (snd e), fst e)) ` set ps) = length ps"
    by (metis distinct_card length_map list.set_map)
  moreover have "set (cache_mapper s) = (\<lambda>e. (fst (snd e), fst e)) ` set ps"
    using assms unfolding lru_inv_def by (elim conjE)
  ultimately show ?thesis using d by (metis distinct_card)
qed

lemma map_remove1_distinct:
  "distinct (map f ps) \<Longrightarrow> e \<in> set ps \<Longrightarrow> map f (remove1 e ps) = remove1 (f e) (map f ps)"
proof (induction ps)
  case (Cons p ps)
  then show ?case by (cases "p = e") (auto simp: rev_image_eqI)
qed simp

lemma distinct_map_move_front:
  assumes "distinct (map f ps)" "e \<in> set ps"
  shows "distinct (map f (e # remove1 e ps))"
proof -
  have "map f (remove1 e ps) = remove1 (f e) (map f ps)"
    using assms by (rule map_remove1_distinct)
  then show ?thesis using assms(1) by simp
qed

lemma set_move_front: "e \<in> set ps \<Longrightarrow> set (e # remove1 e ps) = set ps"
proof (intro set_eqI iffI)
  fix x assume "e \<in> set ps" "x \<in> set (e # remove1 e ps)"
  then show "x \<in> set ps" using set_remove1_subset [of e ps] by auto
next
  fix x assume "e \<in> set ps" "x \<in> set ps"
  then show "x \<in> set (e # remove1 e ps)"
    by (cases "x = e") (simp_all add: in_set_remove1)
qed

lemma lru_invI:
  assumes "dll_chain s (map fst ps)"
    and "\<And>a k v. (a, k, v) \<in> set ps \<Longrightarrow>
           \<exists>n. store s a = Some n \<and> node_key n = Some k \<and> node_value n = Some v"
    and "distinct (map (\<lambda>e. fst (snd e)) ps)"
    and "distinct (map fst (cache_mapper s))"
    and "set (cache_mapper s) = (\<lambda>e. (fst (snd e), fst e)) ` set ps"
    and "\<And>a. store s a \<noteq> None \<Longrightarrow> a < next_free s"
  shows "lru_inv s ps"
  unfolding lru_inv_def by (intro conjI allI impI assms; assumption)

lemma lru_invD:
  assumes "lru_inv s ps"
  shows "dll_chain s (map fst ps)"
    and "distinct (map (\<lambda>e. fst (snd e)) ps)"
    and "distinct (map fst (cache_mapper s))"
    and "set (cache_mapper s) = (\<lambda>e. (fst (snd e), fst e)) ` set ps"
proof -
  note c = assms [unfolded lru_inv_def]
  show "dll_chain s (map fst ps)" using c by (elim conjE)
  show "distinct (map (\<lambda>e. fst (snd e)) ps)" using c by (elim conjE)
  show "distinct (map fst (cache_mapper s))" using c by (elim conjE)
  show "set (cache_mapper s) = (\<lambda>e. (fst (snd e), fst e)) ` set ps" using c by (elim conjE)
qed

lemma lru_inv_node:
  assumes "lru_inv s ps" "(a, k, v) \<in> set ps"
  shows "\<exists>n. store s a = Some n \<and> node_key n = Some k \<and> node_value n = Some v"
proof -
  have "\<forall>a k v. (a, k, v) \<in> set ps \<longrightarrow>
        (\<exists>n. store s a = Some n \<and> node_key n = Some k \<and> node_value n = Some v)"
    using assms(1) unfolding lru_inv_def by (elim conjE)
  then show ?thesis using assms(2) by blast
qed

lemma lru_inv_fresh:
  assumes "lru_inv s ps" "store s a \<noteq> None"
  shows "a < next_free s"
proof -
  have "\<forall>a. store s a \<noteq> None \<longrightarrow> a < next_free s"
    using assms(1) unfolding lru_inv_def by (elim conjE)
  then show ?thesis using assms(2) by blast
qed

lemma lru_inv_lookup:
  assumes "lru_inv s ps" "map_of (cache_mapper s) k = Some a"
  shows "\<exists>v. (a, k, v) \<in> set ps"
proof -
  have "(k, a) \<in> set (cache_mapper s)" using assms(2) by (rule map_of_SomeD)
  then have "(k, a) \<in> (\<lambda>e. (fst (snd e), fst e)) ` set ps"
    using lru_invD(4) [OF assms(1)] by simp
  then show ?thesis by force
qed

lemma chain_distinct:
  "dll_chain s xs \<Longrightarrow> distinct xs \<and> head s \<notin> set xs \<and> tail s \<notin> set xs \<and> head s \<noteq> tail s"
  by (auto simp: dll_chain_def)

lemma get_miss: "map_of (cache_mapper s) k = None \<Longrightarrow> get k s = Some (None, s)"
  by (simp add: get_def)

lemma get_hit:
  assumes I: "lru_inv s ps" and m: "map_of (cache_mapper s) k = Some a"
  shows "\<exists>v s'. (a, k, v) \<in> set ps \<and> get k s = Some (Some v, s') \<and>
           lru_inv s' ((a, k, v) # remove1 (a, k, v) ps) \<and> capacity s' = capacity s"
proof -
  obtain v where e: "(a, k, v) \<in> set ps" using lru_inv_lookup [OF I m] by blast
  define xs where "xs = map fst ps"
  have ch: "dll_chain s xs" using lru_invD(1) [OF I] by (simp add: xs_def)
  have axs: "a \<in> set xs" using e by (force simp: xs_def)
  have dx: "distinct xs" "head s \<notin> set xs" "tail s \<notin> set xs"
    using chain_distinct [OF ch] by simp_all
  obtain s1 where s1: "remove_node a s = Some s1" "same_frame s s1" "dll_chain s1 (remove1 a xs)"
    using remove_node_works [OF ch axs] by blast
  have "a \<notin> set (head s1 # remove1 a xs @ [tail s1])"
    using dx axs same_frameD(3,4) [OF s1(2)] by auto
  moreover have "store s1 a \<noteq> None"
    using lru_inv_node [OF I e] same_frameD(6) [OF s1(2), of a] by auto
  ultimately obtain s2 where s2: "add a s1 = Some s2" "same_frame s1 s2" "dll_chain s2 (a # remove1 a xs)"
    using add_works [OF s1(3)] by blast
  have sf: "same_frame s s2" using same_frame_trans [OF s1(2) s2(2)] .
  have node2: "\<exists>n. store s2 a' = Some n \<and> node_key n = Some k' \<and> node_value n = Some v'"
    if "(a', k', v') \<in> set ps" for a' k' v'
  proof -
    note mem = that
    obtain n where n: "store s a' = Some n" "node_key n = Some k'" "node_value n = Some v'"
      using lru_inv_node [OF I mem] by blast
    show ?thesis using same_frame_node [OF sf n(1)] n(2,3) by auto
  qed
  obtain n2 where n2: "store s2 a = Some n2" "node_value n2 = Some v"
    using node2 [OF e] by blast
  have g: "get k s = Some (Some v, s2)"
    using m s1(1) s2(1) n2 by (simp add: get_def)
  let ?ps' = "(a, k, v) # remove1 (a, k, v) ps"
  have set': "set ?ps' = set ps" using e by (rule set_move_front)
  have "lru_inv s2 ?ps'"
  proof (rule lru_invI)
    have "map fst (remove1 (a, k, v) ps) = remove1 a xs"
      using map_remove1_distinct [of fst ps "(a, k, v)"] dx(1) e by (simp add: xs_def)
    then show "dll_chain s2 (map fst ?ps')" using s2(3) by simp
    show "\<exists>n. store s2 a' = Some n \<and> node_key n = Some k' \<and> node_value n = Some v'"
      if "(a', k', v') \<in> set ?ps'" for a' k' v'
      using that node2 [of a' k' v'] unfolding set' by blast
    show "distinct (map (\<lambda>e. fst (snd e)) ?ps')"
      using lru_invD(2) [OF I] e by (rule distinct_map_move_front)
    show "distinct (map fst (cache_mapper s2))"
      using lru_invD(3) [OF I] same_frameD(2) [OF sf] by simp
    show "set (cache_mapper s2) = (\<lambda>e. (fst (snd e), fst e)) ` set ?ps'"
      using lru_invD(4) [OF I] same_frameD(2) [OF sf] unfolding set' by simp
    show "a' < next_free s2" if "store s2 a' \<noteq> None" for a'
      using that lru_inv_fresh [OF I, of a'] same_frameD(5,6) [OF sf] by simp
  qed
  then show ?thesis using e g same_frameD(1) [OF sf] by blast
qed

lemma chain_cong:
  "store s' = store s \<Longrightarrow> head s' = head s \<Longrightarrow> tail s' = tail s \<Longrightarrow> dll_chain s' xs = dll_chain s xs"
  by (simp add: dll_chain_def)

lemma set_update_distinct:
  "distinct (map fst m) \<Longrightarrow> set (AList.update k a m) = insert (k, a) {e \<in> set m. fst e \<noteq> k}"
  by (induction m) (auto simp: rev_image_eqI)

lemma set_delete_alist: "set (AList.delete k m) = {e \<in> set m. fst e \<noteq> k}"
  by (auto simp: AList.delete_eq)

lemma remove1_last_distinct:
  assumes "distinct xs" "xs \<noteq> []"
  shows "remove1 (last xs) xs = butlast xs"
proof -
  have xs: "xs = butlast xs @ [last xs]" using assms(2) by simp
  then have "distinct (butlast xs @ [last xs])" using assms(1) by simp
  then have "last xs \<notin> set (butlast xs)" by simp
  then have "remove1 (last xs) (butlast xs @ [last xs]) = butlast xs"
    by (simp add: remove1_append)
  then show ?thesis using xs by simp
qed

lemma filter_key_remove1:
  "distinct (map f ps) \<Longrightarrow> e \<in> set ps \<Longrightarrow> filter (\<lambda>x. f x \<noteq> f e) ps = remove1 e ps"
proof (induction ps)
  case (Cons p ps)
  show ?case
  proof (cases "p = e")
    case True
    then have "f e \<notin> f ` set ps" using Cons.prems(1) by simp
    then have "\<forall>x\<in>set ps. f x \<noteq> f e" by (metis imageI)
    then show ?thesis using True by simp
  next
    case False
    then have "f p \<noteq> f e" using Cons.prems by (auto simp: rev_image_eqI)
    then show ?thesis using False Cons by auto
  qed
qed simp

lemma put_phases:
  "put k v s =
     (case put_unlink_old k s of
        None \<Rightarrow> None
      | Some s1 \<Rightarrow>
          (case add (next_free s1)
                  (s1\<lparr>store := (store s1)(next_free s1 \<mapsto> Node k v),
                      next_free := Suc (next_free s1),
                      cache_mapper := AList.update k (next_free s1) (cache_mapper s1)\<rparr>) of
             None \<Rightarrow> None
           | Some s4 \<Rightarrow> put_evict_tail s4))"
proof (cases "put_unlink_old k s")
  case None
  then show ?thesis unfolding put_def put_unlink_old_def by simp
next
  case (Some s1)
  then show ?thesis
    unfolding put_def put_unlink_old_def
    by (simp add: Let_def put_evict_tail_def [abs_def] cong: option.case_cong)
qed

lemma put_unlink:
  fixes k :: 'k
  assumes I: "lru_inv s ps" and ps1_def: "ps1 = filter (\<lambda>e. fst (snd e) \<noteq> k) ps"
  shows "\<exists>s1. put_unlink_old k s = Some s1 \<and>
              dll_chain s1 (map fst ps1) \<and>
              (\<forall>a k' v'. (a, k', v') \<in> set ps1 \<longrightarrow>
                 (\<exists>n. store s1 a = Some n \<and> node_key n = Some k' \<and> node_value n = Some v')) \<and>
              cache_mapper s1 = cache_mapper s \<and> capacity s1 = capacity s \<and>
              (\<forall>a. store s1 a \<noteq> None \<longrightarrow> a < next_free s1)"
proof (cases "map_of (cache_mapper s) k")
  case None
  then have "k \<notin> fst ` set (cache_mapper s)" by (simp add: map_of_eq_None_iff)
  then have "\<forall>e\<in>set ps. fst (snd e) \<noteq> k"
    unfolding lru_invD(4) [OF I] by force
  then have "ps1 = ps" by (simp add: ps1_def)
  then show ?thesis
    using None lru_invD(1) [OF I] lru_inv_node [OF I] lru_inv_fresh [OF I]
    by (simp add: put_unlink_old_def)
next
  case (Some a)
  obtain vo where e: "(a, k, vo) \<in> set ps" using lru_inv_lookup [OF I Some] by blast
  define xs where "xs = map fst ps"
  have ch: "dll_chain s xs" using lru_invD(1) [OF I] by (simp add: xs_def)
  have axs: "a \<in> set xs" using e by (force simp: xs_def)
  have dx: "distinct xs" "head s \<notin> set xs" "tail s \<notin> set xs"
    using chain_distinct [OF ch] by simp_all
  have ps1: "ps1 = remove1 (a, k, vo) ps"
    using filter_key_remove1 [of "\<lambda>e. fst (snd e)" ps "(a, k, vo)"] lru_invD(2) [OF I] e
    by (simp add: ps1_def)
  have xs1: "map fst ps1 = remove1 a xs"
    using map_remove1_distinct [of fst ps "(a, k, vo)"] dx(1) e by (simp add: xs_def ps1)
  obtain s' where s': "remove_node a s = Some s'" "same_frame s s'" "dll_chain s' (remove1 a xs)"
    using remove_node_works [OF ch axs] by blast
  define s1 where "s1 = s'\<lparr>store := (store s')(a := None)\<rparr>"
  have notin: "a \<notin> set (head s' # remove1 a xs @ [tail s'])"
    using dx axs same_frameD(3,4) [OF s'(2)] by auto
  have c1: "dll_chain s1 (map fst ps1)"
    unfolding s1_def xs1 using s'(3) notin by (rule chain_store_upd)
  have n1: "\<exists>n. store s1 a' = Some n \<and> node_key n = Some k' \<and> node_value n = Some v'"
    if "(a', k', v') \<in> set ps1" for a' k' v'
  proof -
    note mem = that
    have "a' \<in> set (map fst ps1)" using mem by force
    then have "a' \<noteq> a" using dx(1) by (auto simp: xs1)
    moreover have "(a', k', v') \<in> set ps" using mem by (simp add: ps1_def)
    then obtain n where n: "store s a' = Some n" "node_key n = Some k'" "node_value n = Some v'"
      using lru_inv_node [OF I] by blast
    ultimately show ?thesis using same_frame_node [OF s'(2) n(1)] n(2,3) by (auto simp: s1_def)
  qed
  have f1: "a' < next_free s1" if "store s1 a' \<noteq> None" for a'
  proof -
    have "store s' a' \<noteq> None" using that by (auto simp: s1_def split: if_splits)
    then have "store s a' \<noteq> None" using same_frameD(6) [OF s'(2), of a'] by simp
    then show ?thesis using lru_inv_fresh [OF I] same_frameD(5) [OF s'(2)] by (simp add: s1_def)
  qed
  have "cache_mapper s1 = cache_mapper s" "capacity s1 = capacity s"
    using same_frameD(1,2) [OF s'(2)] by (simp_all add: s1_def)
  then show ?thesis
    using Some s'(1) c1 n1 f1 by (simp add: put_unlink_old_def s1_def [symmetric])
qed

lemma put_insert:
  fixes k :: 'k and v :: 'v
  assumes ch: "dll_chain s1 (map fst ps1)"
    and nodes: "\<And>a k' v'. (a, k', v') \<in> set ps1 \<Longrightarrow>
                  \<exists>n. store s1 a = Some n \<and> node_key n = Some k' \<and> node_value n = Some v'"
    and dk: "distinct (map (\<lambda>e. fst (snd e)) ps1)"
    and kn: "\<And>e. e \<in> set ps1 \<Longrightarrow> fst (snd e) \<noteq> k"
    and dm: "distinct (map fst (cache_mapper s1))"
    and sm: "{e \<in> set (cache_mapper s1). fst e \<noteq> k} = (\<lambda>e. (fst (snd e), fst e)) ` set ps1"
    and fr: "\<And>a. store s1 a \<noteq> None \<Longrightarrow> a < next_free s1"
    and new: "new = next_free s1"
    and s3: "s3 = s1\<lparr>store := (store s1)(new \<mapsto> Node k v), next_free := Suc new,
                      cache_mapper := AList.update k new (cache_mapper s1)\<rparr>"
  shows "\<exists>s4. add new s3 = Some s4 \<and> lru_inv s4 ((new, k, v) # ps1) \<and> capacity s4 = capacity s1"
proof -
  define xs where "xs = map fst ps1"
  have free: "store s1 new = None"
    using fr [of new] by (cases "store s1 new") (auto simp: new)
  have notin: "new \<notin> set (head s1 # xs @ [tail s1])"
    using chain_alloc [OF ch, of new] free by (auto simp: xs_def)
  have "dll_chain (s1\<lparr>store := (store s1)(new := Some (Node k v))\<rparr>) xs"
    using ch notin unfolding xs_def by (rule chain_store_upd)
  then have ch3: "dll_chain s3 xs"
    by (subst chain_cong [where s = "s1\<lparr>store := (store s1)(new := Some (Node k v))\<rparr>"])
       (simp_all add: s3)
  have h3: "head s3 = head s1" "tail s3 = tail s1" by (simp_all add: s3)
  have st3: "store s3 new = Some (Node k v)" by (simp add: s3)
  obtain s4 where s4: "add new s3 = Some s4" "same_frame s3 s4" "dll_chain s4 (new # xs)"
    using add_works [OF ch3, of new] notin st3 by (auto simp: h3)
  have "lru_inv s4 ((new, k, v) # ps1)"
  proof (rule lru_invI)
    show "dll_chain s4 (map fst ((new, k, v) # ps1))" using s4(3) by (simp add: xs_def)
    show "\<exists>n. store s4 a = Some n \<and> node_key n = Some k' \<and> node_value n = Some v'"
      if "(a, k', v') \<in> set ((new, k, v) # ps1)" for a k' v'
    proof (cases "(a, k', v') = (new, k, v)")
      case True
      then show ?thesis using same_frame_node [OF s4(2) st3] by (auto simp: Node_def)
    next
      case False
      then have mem: "(a, k', v') \<in> set ps1" using that by auto
      then obtain n where n: "store s1 a = Some n" "node_key n = Some k'" "node_value n = Some v'"
        using nodes by blast
      then have "a \<noteq> new" using free by auto
      then have "store s3 a = Some n" using n(1) by (simp add: s3)
      from same_frame_node [OF s4(2) this] show ?thesis using n(2,3) by auto
    qed
    show "distinct (map (\<lambda>e. fst (snd e)) ((new, k, v) # ps1))"
      using dk kn by auto
    have cm: "cache_mapper s4 = AList.update k new (cache_mapper s1)"
      using same_frameD(2) [OF s4(2)] by (simp add: s3)
    show "distinct (map fst (cache_mapper s4))"
      using dm by (simp add: cm distinct_update)
    show "set (cache_mapper s4) = (\<lambda>e. (fst (snd e), fst e)) ` set ((new, k, v) # ps1)"
      using sm by (simp add: cm set_update_distinct [OF dm])
    show "a < next_free s4" if "store s4 a \<noteq> None" for a
    proof -
      have "store s3 a \<noteq> None" using that same_frameD(6) [OF s4(2), of a] by simp
      then have "a = new \<or> store s1 a \<noteq> None" by (auto simp: s3 split: if_splits)
      then have "a < Suc new" using fr [of a] by (auto simp: new)
      then show ?thesis using same_frameD(5) [OF s4(2)] by (simp add: s3)
    qed
  qed
  moreover have "capacity s4 = capacity s1" using same_frameD(1) [OF s4(2)] by (simp add: s3)
  ultimately show ?thesis using s4(1) by blast
qed

lemma put_trim:
  assumes I: "lru_inv s4 ps4" and ne: "ps4 \<noteq> []"
  shows "\<exists>s'. put_evict_tail s4 = Some s' \<and>
              lru_inv s' (if length ps4 > unat (scast (capacity s4) :: size_t)
                          then butlast ps4 else ps4) \<and>
              capacity s' = capacity s4"
proof (cases "length ps4 > unat (scast (capacity s4) :: size_t)")
  case False
  then show ?thesis using I lru_inv_size [OF I] by (simp add: put_evict_tail_def)
next
  case True
  define xs where "xs = map fst ps4"
  define b where "b = last xs"
  have xne: "xs \<noteq> []" using ne by (simp add: xs_def)
  have ch: "dll_chain s4 xs" using lru_invD(1) [OF I] by (simp add: xs_def)
  have dx: "distinct xs" "head s4 \<notin> set xs" "tail s4 \<notin> set xs"
    using chain_distinct [OF ch] by simp_all
  have bxs: "b \<in> set xs" using xne by (simp add: b_def)
  obtain kb vb where e: "last ps4 = (b, kb, vb)"
    using ne by (cases "last ps4") (simp add: b_def xs_def last_map)
  have emem: "(b, kb, vb) \<in> set ps4" using ne e by (metis last_in_set)
  have eq: "head s4 # xs @ [tail s4] = (head s4 # butlast xs) @ b # [tail s4]"
    using xne by (simp add: b_def)
  have "successively (linked (store s4)) (head s4 # xs @ [tail s4])"
    using ch by (simp add: dll_chain_def)
  then have "successively (linked (store s4)) ((head s4 # butlast xs) @ b # [tail s4])"
    by (simp only: eq)
  then have "linked (store s4) b (hd [tail s4])"
    by (rule chain_neighbours(2)) simp_all
  then obtain tn where tn: "store s4 (tail s4) = Some tn" "node_prev tn = Some b"
    by (auto simp: linked_def)
  obtain s5 where s5: "remove_node b s4 = Some s5" "same_frame s4 s5" "dll_chain s5 (remove1 b xs)"
    using remove_node_works [OF ch bxs] by blast
  have r1: "remove1 b xs = butlast xs" using dx(1) xne by (simp add: b_def remove1_last_distinct)
  obtain n where n: "store s4 b = Some n" "node_key n = Some kb"
    using lru_inv_node [OF I emem] by blast
  obtain tp where tp: "store s5 b = Some tp" "node_key tp = Some kb"
    using same_frame_node [OF s5(2) n(1)] n(2) by auto
  define s' where "s' = s5\<lparr>cache_mapper := AList.delete kb (cache_mapper s5),
                           store := (store s5)(b := None)\<rparr>"
  have res: "put_evict_tail s4 = Some s'"
    using True tn s5(1) tp lru_inv_size [OF I] by (simp add: put_evict_tail_def s'_def)
  have bnot: "b \<notin> set (head s5 # butlast xs @ [tail s5])"
  proof -
    have "b \<notin> set (butlast xs)"
      using dx(1) xne by (metis append_butlast_last_id b_def distinct_append disjoint_iff
          list.set_intros(1))
    then show ?thesis using dx(2,3) bxs same_frameD(3,4) [OF s5(2)] by auto
  qed
  have keyinj: "e' = (b, kb, vb)" if "e' \<in> set ps4" "fst (snd e') = kb" for e'
    using lru_invD(2) [OF I] that emem
    by (metis (mono_tags, lifting) distinct_map inj_onD fst_conv snd_conv)
  have setb: "set (butlast ps4) = set ps4 - {(b, kb, vb)}"
  proof -
    have d: "distinct ps4" using lru_invD(2) [OF I] by (simp add: distinct_map)
    have p: "ps4 = butlast ps4 @ [(b, kb, vb)]" using ne e by (metis append_butlast_last_id)
    then have "distinct (butlast ps4 @ [(b, kb, vb)])" using d by simp
    then have "(b, kb, vb) \<notin> set (butlast ps4)" by simp
    moreover have "set ps4 = insert (b, kb, vb) (set (butlast ps4))"
      by (subst p) simp
    ultimately show ?thesis by auto
  qed
  have "lru_inv s' (butlast ps4)"
  proof (rule lru_invI)
    have "dll_chain (s5\<lparr>store := (store s5)(b := None)\<rparr>) (butlast xs)"
      using s5(3) bnot unfolding r1 by (rule chain_store_upd)
    then have "dll_chain s' (butlast xs)"
      by (subst chain_cong [where s = "s5\<lparr>store := (store s5)(b := None)\<rparr>"])
         (simp_all add: s'_def)
    then show "dll_chain s' (map fst (butlast ps4))" by (simp add: xs_def map_butlast)
    show "\<exists>n. store s' a = Some n \<and> node_key n = Some k' \<and> node_value n = Some v'"
      if "(a, k', v') \<in> set (butlast ps4)" for a k' v'
    proof -
      note mem = that
      have m4: "(a, k', v') \<in> set ps4" using mem by (rule in_set_butlastD)
      have "fst (a, k', v') \<in> fst ` set (butlast ps4)" using mem by (rule imageI)
      then have "a \<in> set (butlast xs)" by (simp add: xs_def map_butlast [symmetric])
      then have "a \<noteq> b" using bnot by auto
      obtain n4 where n4: "store s4 a = Some n4" "node_key n4 = Some k'" "node_value n4 = Some v'"
        using lru_inv_node [OF I m4] by blast
      from same_frame_node [OF s5(2) n4(1)] show ?thesis
        using n4(2,3) \<open>a \<noteq> b\<close> by (auto simp: s'_def)
    qed
    show "distinct (map (\<lambda>e. fst (snd e)) (butlast ps4))"
      using lru_invD(2) [OF I] by (simp add: map_butlast distinct_butlast)
    have cm: "cache_mapper s' = AList.delete kb (cache_mapper s4)"
      using same_frameD(2) [OF s5(2)] by (simp add: s'_def)
    show "distinct (map fst (cache_mapper s'))"
      using lru_invD(3) [OF I] by (simp add: cm distinct_delete)
    show "set (cache_mapper s') = (\<lambda>e. (fst (snd e), fst e)) ` set (butlast ps4)"
      unfolding cm set_delete_alist lru_invD(4) [OF I] setb
      using keyinj by force
    show "a < next_free s'" if "store s' a \<noteq> None" for a
    proof -
      have "store s5 a \<noteq> None" using that by (auto simp: s'_def split: if_splits)
      then have "store s4 a \<noteq> None" using same_frameD(6) [OF s5(2), of a] by simp
      then show ?thesis
        using lru_inv_fresh [OF I] same_frameD(5) [OF s5(2)] by (simp add: s'_def)
    qed
  qed
  moreover have "capacity s' = capacity s4" using same_frameD(1) [OF s5(2)] by (simp add: s'_def)
  ultimately show ?thesis using True res by simp
qed

lemma put_works:
  fixes k :: 'k and v :: 'v
  assumes I: "lru_inv s ps"
  shows "\<exists>s' new. put k v s = Some s' \<and> capacity s' = capacity s \<and>
           lru_inv s' (if length ((new, k, v) # filter (\<lambda>e. fst (snd e) \<noteq> k) ps) > cap_size (capacity s)
                       then butlast ((new, k, v) # filter (\<lambda>e. fst (snd e) \<noteq> k) ps)
                       else (new, k, v) # filter (\<lambda>e. fst (snd e) \<noteq> k) ps)"
proof -
  define ps1 where "ps1 = filter (\<lambda>e. fst (snd e) \<noteq> k) ps"
  from put_unlink [OF I ps1_def] obtain s1 where
    ph1: "put_unlink_old k s = Some s1"
    and ch1: "dll_chain s1 (map fst ps1)"
    and n1: "\<forall>a k' v'. (a, k', v') \<in> set ps1 \<longrightarrow>
                 (\<exists>n. store s1 a = Some n \<and> node_key n = Some k' \<and> node_value n = Some v')"
    and m1: "cache_mapper s1 = cache_mapper s" and c1: "capacity s1 = capacity s"
    and f1: "\<forall>a. store s1 a \<noteq> None \<longrightarrow> a < next_free s1"
    by (elim exE conjE)
  define new where "new = next_free s1"
  define s3 where "s3 = s1\<lparr>store := (store s1)(new \<mapsto> Node k v), next_free := Suc new,
                      cache_mapper := AList.update k new (cache_mapper s1)\<rparr>"
  have dk: "distinct (map (\<lambda>e. fst (snd e)) ps1)"
    using lru_invD(2) [OF I] by (simp add: ps1_def distinct_map_filter)
  have kn: "fst (snd e) \<noteq> k" if "e \<in> set ps1" for e using that by (simp add: ps1_def)
  have dm: "distinct (map fst (cache_mapper s1))" using lru_invD(3) [OF I] by (simp add: m1)
  have "{e \<in> (\<lambda>e. (fst (snd e), fst e)) ` set ps. fst e \<noteq> k}
          = (\<lambda>e. (fst (snd e), fst e)) ` {e \<in> set ps. fst (snd e) \<noteq> k}"
    by (intro set_eqI iffI) force+
  then have sm: "{e \<in> set (cache_mapper s1). fst e \<noteq> k} = (\<lambda>e. (fst (snd e), fst e)) ` set ps1"
    by (simp add: m1 lru_invD(4) [OF I] ps1_def)
  have nodes1: "\<And>a k' v'. (a, k', v') \<in> set ps1 \<Longrightarrow>
      \<exists>n. store s1 a = Some n \<and> node_key n = Some k' \<and> node_value n = Some v'"
    using n1 by blast
  have fr1: "\<And>a. store s1 a \<noteq> None \<Longrightarrow> a < next_free s1" using f1 by blast
  have "\<exists>s4. add new s3 = Some s4 \<and> lru_inv s4 ((new, k, v) # ps1) \<and> capacity s4 = capacity s1"
    by (rule put_insert [OF ch1 nodes1 dk kn dm sm fr1 new_def s3_def])
  then obtain s4 where s4: "add new s3 = Some s4" "lru_inv s4 ((new, k, v) # ps1)"
    "capacity s4 = capacity s1"
    by (elim exE conjE)
  have ne4: "(new, k, v) # ps1 \<noteq> []" by simp
  from put_trim [OF s4(2) ne4] obtain s' where
    tr: "put_evict_tail s4 = Some s'"
    and I': "lru_inv s' (if length ((new, k, v) # ps1) > unat (scast (capacity s4) :: size_t)
                          then butlast ((new, k, v) # ps1) else (new, k, v) # ps1)"
    and c': "capacity s' = capacity s4"
    by (elim exE conjE)
  have s3': "s1\<lparr>store := (store s1)(next_free s1 \<mapsto> Node k v), next_free := Suc (next_free s1),
              cache_mapper := AList.update k (next_free s1) (cache_mapper s1)\<rparr> = s3"
    by (simp add: s3_def new_def)
  have "put k v s = Some s'"
    by (simp add: put_phases ph1 s3' s4(1) [unfolded new_def] tr)
  moreover have "capacity s' = capacity s" by (simp add: c' s4(3) c1)
  moreover have "lru_inv s' (if length ((new, k, v) # ps1) > cap_size (capacity s)
                       then butlast ((new, k, v) # ps1) else (new, k, v) # ps1)"
    using I' by (simp only: cap_size_def s4(3) c1)
  ultimately show ?thesis
    unfolding ps1_def by (intro exI conjI)
qed

lemma abs_put:
  fixes k :: 'k and v :: 'v
  assumes "abs_rel s al"
  shows "\<exists>s'. put k v s = Some s' \<and> capacity s' = capacity s \<and>
           abs_rel s' (spec_put (cap_size (capacity s)) k v al)"
proof -
  obtain ps where ps: "lru_inv s ps" "map snd ps = al"
    using assms unfolding abs_rel_def by (elim exE conjE)
  let ?f = "filter (\<lambda>e. fst (snd e) \<noteq> k) ps"
  let ?c = "cap_size (capacity s)"
  obtain s' new where s': "put k v s = Some s'" "capacity s' = capacity s"
    "lru_inv s' (if length ((new, k, v) # ?f) > ?c then butlast ((new, k, v) # ?f)
                 else (new, k, v) # ?f)"
    using put_works [OF ps(1), of k v] by (elim exE conjE)
  have m: "map snd ((new, k, v) # ?f) = lru_touch k v al"
    by (simp add: lru_touch_def ps(2) [symmetric] filter_map comp_def)
  then have l: "length ((new, k, v) # ?f) = length (lru_touch k v al)"
    by (metis length_map)
  have "map snd (if length ((new, k, v) # ?f) > ?c then butlast ((new, k, v) # ?f)
                 else (new, k, v) # ?f) = spec_put ?c k v al"
    unfolding spec_put_def l [symmetric] m [symmetric] by (simp add: map_butlast)
  then have "abs_rel s' (spec_put ?c k v al)"
    unfolding abs_rel_def using s'(3) by (intro exI conjI)
  then show ?thesis using s'(1,2) by (intro exI conjI)
qed

lemma abs_keys:
  assumes "lru_inv s ps"
  shows "distinct (map fst (map snd ps))" "fst ` set (cache_mapper s) = fst ` set (map snd ps)"
proof -
  show "distinct (map fst (map snd ps))" using lru_invD(2) [OF assms] by (simp add: comp_def)
  show "fst ` set (cache_mapper s) = fst ` set (map snd ps)"
    unfolding lru_invD(4) [OF assms] by (simp add: image_image)
qed

lemma abs_get:
  fixes k :: 'k
  assumes "abs_rel s al"
  shows "\<exists>s'. get k s = Some (map_of al k, s') \<and> capacity s' = capacity s \<and>
           abs_rel s' (spec_get k al)"
proof -
  obtain ps where ps: "lru_inv s ps" "map snd ps = al"
    using assms unfolding abs_rel_def by (elim exE conjE)
  have dk: "distinct (map fst al)" and ks: "fst ` set (cache_mapper s) = fst ` set al"
    using abs_keys [OF ps(1)] by (simp_all add: ps(2))
  show ?thesis
  proof (cases "map_of (cache_mapper s) k")
    case None
    then have "k \<notin> fst ` set al" using ks by (simp add: map_of_eq_None_iff)
    then have "map_of al k = None" by (simp add: map_of_eq_None_iff)
    then show ?thesis using None assms by (simp add: get_miss spec_get_def)
  next
    case (Some a)
    obtain v s' where h: "(a, k, v) \<in> set ps" "get k s = Some (Some v, s')"
      "lru_inv s' ((a, k, v) # remove1 (a, k, v) ps)" "capacity s' = capacity s"
      using get_hit [OF ps(1) Some] by (elim exE conjE)
    have mem: "(k, v) \<in> set al" using h(1) ps(2) by force
    then have look: "map_of al k = Some v" using dk by simp
    have "distinct (map fst (map snd ps))" using dk by (simp add: ps(2))
    then have ds: "distinct (map snd ps)" by (rule distinct_map [THEN iffD1, THEN conjunct1])
    have "map snd (remove1 (a, k, v) ps) = remove1 (k, v) al"
      using map_remove1_distinct [OF ds h(1)] by (simp add: ps(2))
    also have "\<dots> = filter (\<lambda>e. fst e \<noteq> k) al"
      using filter_key_remove1 [OF dk mem] by simp
    finally have "map snd ((a, k, v) # remove1 (a, k, v) ps) = spec_get k al"
      by (simp add: spec_get_def look lru_touch_def)
    then have "abs_rel s' (spec_get k al)"
      unfolding abs_rel_def using h(3) by (intro exI conjI)
    then show ?thesis using h(2,4) look by simp
  qed
qed

lemma abs_init:
  "\<exists>s0 :: ('k, 'v) LRUCache. LRUCache c = Some s0 \<and> capacity s0 = c \<and> abs_rel s0 []"
proof -
  define i :: "('k, 'v) LRUCache" where
    "i = \<lparr>capacity = c, cache_mapper = [], head = 0, tail = 1,
          store = [0 \<mapsto> Node_dummy, 1 \<mapsto> Node_dummy], next_free = 2\<rparr>"
  have al: "store i 0 \<noteq> None" "store i 1 \<noteq> None" by (simp_all add: i_def)
  from link_works [OF al] obtain s0 where s0: "link (Some 0) (Some 1) i = Some s0"
    "same_frame i s0"
    "\<And>x y. linked (store s0) x y \<longleftrightarrow>
        (x = 0 \<and> y = 1) \<or> (x \<noteq> 0 \<and> y \<noteq> 1 \<and> linked (store i) x y)"
    by blast
  have f: "head s0 = 0" "tail s0 = 1" "cache_mapper s0 = []" "next_free s0 = 2" "capacity s0 = c"
    using same_frameD(1-5) [OF s0(2)] by (simp_all add: i_def)
  have "lru_inv s0 []"
  proof (rule lru_invI)
    show "dll_chain s0 (map fst [])" by (simp add: dll_chain_def f s0(3))
    show "a < next_free s0" if "store s0 a \<noteq> None" for a
    proof -
      have "store i a \<noteq> None" using that same_frameD(6) [OF s0(2), of a] by simp
      then show ?thesis by (simp add: i_def f split: if_splits)
    qed
  qed (simp_all add: f)
  then have "abs_rel s0 []" unfolding abs_rel_def by simp
  moreover have "LRUCache c = Some s0" using s0(1) by (simp add: LRUCache_def i_def)
  ultimately show ?thesis using f(5) by blast
qed

lemma abs_step:
  assumes "abs_rel s al"
  shows "\<exists>s'. lru_step x s = Some s' \<and> capacity s' = capacity s \<and>
           abs_rel s' (spec_step (cap_size (capacity s)) x al)"
proof (cases x)
  case (Lru_put k v)
  then show ?thesis using abs_put [OF assms, of k v] by simp
next
  case (Lru_get k)
  obtain s' where "get k s = Some (map_of al k, s')" "capacity s' = capacity s"
    "abs_rel s' (spec_get k al)"
    using abs_get [OF assms, of k] by (elim exE conjE)
  then show ?thesis using Lru_get by simp
qed

lemma abs_run:
  "abs_rel s al \<Longrightarrow>
   \<exists>s'. lru_run cs s = Some s' \<and> capacity s' = capacity s \<and>
        abs_rel s' (spec_run (cap_size (capacity s)) cs al)"
proof (induction cs arbitrary: s al)
  case Nil
  then show ?case by simp
next
  case (Cons x cs)
  obtain s1 where s1: "lru_step x s = Some s1" "capacity s1 = capacity s"
    "abs_rel s1 (spec_step (cap_size (capacity s)) x al)"
    using abs_step [OF Cons.prems, of x] by (elim exE conjE)
  obtain s' where "lru_run cs s1 = Some s'" "capacity s' = capacity s1"
    "abs_rel s' (spec_run (cap_size (capacity s1)) cs (spec_step (cap_size (capacity s)) x al))"
    using Cons.IH [OF s1(3)] by (elim exE conjE)
  then show ?case using s1(1,2) by simp
qed

lemma length_lru_touch_hit:
  assumes "map_of al k = Some v"
  shows "length (lru_touch k v al) \<le> length al"
proof -
  have "(k, v) \<in> set al" using assms by (rule map_of_SomeD)
  then have "length (filter (\<lambda>e. fst e \<noteq> k) al) < length al"
    by (intro length_filter_less [of "(k, v)"]) simp_all
  then show ?thesis by (simp add: lru_touch_def)
qed

lemma spec_step_length: "length al \<le> c \<Longrightarrow> length (spec_step c x al) \<le> c"
proof (cases x)
  case (Lru_put k v)
  assume "length al \<le> c"
  moreover have "length (lru_touch k v al) \<le> Suc (length al)" by (simp add: lru_touch_def)
  ultimately show ?thesis using Lru_put by (auto simp: spec_put_def)
next
  case (Lru_get k)
  assume "length al \<le> c"
  then show ?thesis
    using Lru_get length_lru_touch_hit [of al k]
    by (auto simp: spec_get_def split: option.split intro: order_trans)
qed

lemma spec_run_length: "length al \<le> c \<Longrightarrow> length (spec_run c cs al) \<le> c"
  by (induction cs arbitrary: al) (simp_all add: spec_step_length)

section \<open>The claims\<close>

subsection \<open>Evaluation of concrete calls\<close>

text \<open>
  The definitions that \<open>simp\<close> unfolds to run the LRU-K cache on concrete calls, and the
  cache of capacity 2 and K = 2 after \<open>put(1,10); put(1,11); put(2,20); put(2,21)\<close>.
\<close>

lemmas lruk_eval = Put_def Get_def Remove_def Evict_def ResourceAccess_def LRU_K_Cache_def
  LRUNode_def node_less_def Compare_def Let_def size_cache_def contains_def

lemma trace_K2:
  "run [Call_Put (1::int) (10::int), Call_Put 1 11, Call_Put 2 20, Call_Put 2 21] (LRU_K_Cache 2 2)
   = \<lparr>capacity_' = 2, k_' = 2, cache_' = [(1, 0), (2, 1)], eviction_set_' = [0, 1],
      compare_k_' = 2, current_timestamp_' = 4,
      heap = [0 \<mapsto> \<lparr>key_' = 1, value_' = 11, history_' = [1, 2], is_evictable_' = True\<rparr>,
              1 \<mapsto> \<lparr>key_' = 2, value_' = 21, history_' = [3, 4], is_evictable_' = True\<rparr>],
      next_addr = 2\<rparr>"
  by (simp add: lruk_eval)

lemma run_append: "run (xs @ ys) s = run ys (run xs s)"
  by (induction xs arbitrary: s) simp_all

lemma unat_max_word64: "unat (- 1 :: 64 word) = 18446744073709551615"
proof -
  have "(- 1 :: 64 word) = 18446744073709551615" by simp
  then have "unat (- 1 :: 64 word) = unat (18446744073709551615 :: 64 word)" by (rule arg_cong)
  then show ?thesis by simp
qed

subsection \<open>C1: the entry the eviction step removes\<close>

lemma node_rank_full:
  assumes "history_' n = t # ts" "\<not> length (history_' n) < unat (scast ck :: size_t)"
  shows "node_rank ck n = (0, t, key_' n)"
  using assms by (simp add: node_rank_def)

lemma rank_less_full:
  "((0::nat, t :: timestamp_t, a :: 'k::linorder) < (0, u, b)) = (t < u \<or> (t = u \<and> a < b))"
  by (auto simp: less_prod_def)

text \<open>
  The eviction step when K fits the \<open>int\<close> field of the comparator. Let \<open>s\<close> be the
  cache after any sequence of calls on a cache constructed with \<open>1 \<le> K < 2^31\<close>, let
  \<open>key\<close> be a key that is not indexed, and let the size of the index have reached the
  capacity. When the ordering structure is empty the eviction step removes nothing and
  the put makes the index one entry larger. Otherwise the eviction step removes exactly
  the first element \<open>p\<close> of the ordering structure: its node \<open>n\<close> is indexed, has full
  history, and its oldest retained timestamp \<open>t\<close> is the smallest among all full-history
  entries, a tie being broken by the smaller key; \<open>Evict\<close> returns the cache without
  \<open>p\<close> in the ordering structure, without the key of \<open>n\<close> in the index and without the
  node; and after \<open>Put\<close> the index is the old one without that key and with the new key
  (so its size is unchanged), and the evicted entry is in neither the index, the
  ordering structure nor the store.
\<close>

theorem eviction_removes_oldest:
  fixes key :: "'k::linorder" and s :: "('k, 'v) LRU_K_Cache"
  assumes "0 < K" and "K < 2 ^ 31" and "s = run cs (LRU_K_Cache C K)"
    and "map_of (cache_' s) key = None" and "unat C \<le> size_cache s"
  shows "(eviction_set_' s = [] \<longrightarrow>
            Evict s = Inr s \<and> size_cache (snd (Put key val s)) = size_cache s + 1) \<and>
         (\<forall>p rest. eviction_set_' s = p # rest \<longrightarrow>
            (\<exists>n t ts.
               heap s p = Some n \<and> map_of (cache_' s) (key_' n) = Some p \<and>
               length (history_' n) = unat K \<and> history_' n = t # ts \<and>
               (\<forall>q m u us. q \<noteq> p \<and> heap s q = Some m \<and> length (history_' m) = unat K \<and>
                    history_' m = u # us \<longrightarrow> t < u \<or> (t = u \<and> key_' n < key_' m)) \<and>
               Evict s = Inr (s\<lparr>eviction_set_' := rest,
                                 cache_' := AList.delete (key_' n) (cache_' s),
                                 heap := (heap s)(p := None)\<rparr>) \<and>
               cache_' (snd (Put key val s))
                 = AList.delete (key_' n) (cache_' s) @ [(key, next_addr s)] \<and>
               size_cache (snd (Put key val s)) = size_cache s \<and>
               map_of (cache_' (snd (Put key val s))) (key_' n) = None \<and>
               p \<notin> set (eviction_set_' (snd (Put key val s))) \<and>
               heap (snd (Put key val s)) p = None))"
proof -
  have Kpos: "0 < unat K" using assms(1) by (simp add: word_less_nat_alt)
  have I: "lruk_inv s" using assms(3) Kpos by (simp add: reachable_inv)
  have fK: "k_' s = K" and fC: "capacity_' s = C"
    using assms(3) by (simp_all add: run_k run_capacity init_fields)
  have ck: "unat (scast (compare_k_' s) :: size_t) = unat K"
    using invD_ck [OF I] scast_ucast_small [OF assms(2)] by (simp add: fK)
  have cap: "\<not> length (cache_' s) < unat (capacity_' s)"
    using assms(5) by (simp add: fC size_cache_def)
  have A: "Evict s = Inr s \<and> size_cache (snd (Put key val s)) = size_cache s + 1"
    if "eviction_set_' s = []"
  proof -
    have E: "Evict s = Inr s" using that by (rule Evict_empty)
    then show ?thesis using Put_new_cache [OF I assms(4) E] by (simp add: size_cache_def)
  qed
  have B: "\<exists>n t ts.
               heap s p = Some n \<and> map_of (cache_' s) (key_' n) = Some p \<and>
               length (history_' n) = unat K \<and> history_' n = t # ts \<and>
               (\<forall>q m u us. q \<noteq> p \<and> heap s q = Some m \<and> length (history_' m) = unat K \<and>
                    history_' m = u # us \<longrightarrow> t < u \<or> (t = u \<and> key_' n < key_' m)) \<and>
               Evict s = Inr (s\<lparr>eviction_set_' := rest,
                                 cache_' := AList.delete (key_' n) (cache_' s),
                                 heap := (heap s)(p := None)\<rparr>) \<and>
               cache_' (snd (Put key val s))
                 = AList.delete (key_' n) (cache_' s) @ [(key, next_addr s)] \<and>
               size_cache (snd (Put key val s)) = size_cache s \<and>
               map_of (cache_' (snd (Put key val s))) (key_' n) = None \<and>
               p \<notin> set (eviction_set_' (snd (Put key val s))) \<and>
               heap (snd (Put key val s)) p = None"
    if es: "eviction_set_' s = p # rest" for p rest
  proof -
    define s1 where "s1 = (\<lambda>n :: ('k, 'v) LRUNode. s\<lparr>eviction_set_' := rest,
        cache_' := AList.delete (key_' n) (cache_' s), heap := (heap s)(p := None)\<rparr>)"
    from Evict_head [OF I cap es] obtain n where n: "heap s p = Some n" "is_full s n"
      "Evict s = Inr (s1 n)"
      unfolding s1_def by (elim exE conjE)
    have look: "map_of (cache_' s) (key_' n) = Some p" using inv_lookup [OF I n(1)] .
    have len: "length (history_' n) = unat K" using n(2) by (simp add: is_full_def fK)
    obtain t ts where h: "history_' n = t # ts"
      using full_nonempty [OF I n(2)] by (cases "history_' n") auto
    have rp: "rank s p = (0, t, key_' n)"
      using n(1) node_rank_full [OF h, of "compare_k_' s"] by (simp add: rank_def ck len)
    have min: "t < u \<or> (t = u \<and> key_' n < key_' m)"
      if "q \<noteq> p" "heap s q = Some m" "length (history_' m) = unat K" "history_' m = u # us"
      for q m u us
    proof -
      have "q \<in> set (eviction_set_' s)"
        using inv_member_full [OF I, of q] that(2,3) by (simp add: is_full_def fK)
      then have "q \<in> set rest" using that(1) es by simp
      then have "rank s p < rank s q" using invD_sorted [OF I] es by simp
      moreover have "rank s q = (0, u, key_' m)"
        using that(2) node_rank_full [OF that(4), of "compare_k_' s"]
        by (simp add: rank_def ck that(3))
      ultimately have "(0::nat, t, key_' n) < (0, u, key_' m)" by (simp only: rp)
      then show ?thesis by (simp only: rank_less_full)
    qed
    have f1: "cache_' (s1 n) = AList.delete (key_' n) (cache_' s)" "next_addr (s1 n) = next_addr s"
      "heap (s1 n) p = None" "eviction_set_' (s1 n) = rest"
      by (simp_all add: s1_def)
    have P: "cache_' (snd (Put key val s)) = cache_' (s1 n) @ [(key, next_addr (s1 n))]"
      "\<forall>q. heap (s1 n) q = None \<and> q \<noteq> next_addr (s1 n) \<longrightarrow> heap (snd (Put key val s)) q = None"
      "set (eviction_set_' (snd (Put key val s)))
         \<subseteq> insert (next_addr (s1 n)) (set (eviction_set_' (s1 n)))"
      using Put_new_cache [OF I assms(4) n(3), of val] by simp_all
    have pn: "p \<noteq> next_addr s" using invD_fresh [OF I n(1)] by simp
    have c1: "cache_' (snd (Put key val s)) = AList.delete (key_' n) (cache_' s) @ [(key, next_addr s)]"
      using P(1) by (simp add: f1)
    have ne: "cache_' s \<noteq> []" using look by auto
    have c2: "size_cache (snd (Put key val s)) = size_cache s"
      using length_delete_present [OF invD_fst [OF I] look] ne
      by (cases "cache_' s") (simp_all add: c1 size_cache_def)
    have kk: "key \<noteq> key_' n" using look assms(4) by auto
    have c3: "map_of (cache_' (snd (Put key val s))) (key_' n) = None"
      using kk by (simp add: c1 map_add_def delete_conv')
    have "p \<notin> set rest" using inv_distinct_set [OF I] es by simp
    then have c4: "p \<notin> set (eviction_set_' (snd (Put key val s)))"
      using P(3) pn by (auto simp: f1)
    have c5: "heap (snd (Put key val s)) p = None"
      using P(2) pn by (simp add: f1)
    show ?thesis
      using n(1) look len h min n(3) c1 c2 c3 c4 c5 unfolding s1_def by blast
  qed
  show ?thesis using A B by blast
qed

text \<open>
  The instance K = 2, capacity 2, after \<open>put(1,10); put(1,11); put(2,20); put(2,21)\<close>:
  \<open>put(3,30)\<close> evicts key 1, whose second-most-recent access is the older one.
\<close>

theorem eviction_removes_oldest_witness:
  "(0 :: size_t) < 2 \<and> (2 :: size_t) < 2 ^ 31 \<and>
   map_of (cache_' (run [Call_Put (1::int) (10::int), Call_Put 1 11, Call_Put 2 20, Call_Put 2 21]
      (LRU_K_Cache 2 2))) 3 = None \<and>
   unat (2 :: size_t) \<le> size_cache (run [Call_Put (1::int) (10::int), Call_Put 1 11,
      Call_Put 2 20, Call_Put 2 21] (LRU_K_Cache 2 2)) \<and>
   eviction_set_' (run [Call_Put (1::int) (10::int), Call_Put 1 11, Call_Put 2 20, Call_Put 2 21]
      (LRU_K_Cache 2 2)) = [0, 1] \<and>
   cache_' (snd (Put 3 30 (run [Call_Put (1::int) (10::int), Call_Put 1 11, Call_Put 2 20,
      Call_Put 2 21] (LRU_K_Cache 2 2)))) = [(2, 1), (3, 2)] \<and>
   heap (snd (Put 3 30 (run [Call_Put (1::int) (10::int), Call_Put 1 11, Call_Put 2 20,
      Call_Put 2 21] (LRU_K_Cache 2 2)))) 0 = None"
proof -
  let ?s = "run [Call_Put (1::int) (10::int), Call_Put 1 11, Call_Put 2 20, Call_Put 2 21]
      (LRU_K_Cache 2 2)"
  have h: "(0 :: size_t) < 2" "(2 :: size_t) < 2 ^ 31" "map_of (cache_' ?s) 3 = None"
    "unat (2 :: size_t) \<le> size_cache ?s" "eviction_set_' ?s = [0, 1]"
    unfolding trace_K2 by (simp_all add: size_cache_def)
  from eviction_removes_oldest [OF h(1,2) refl h(3,4), of 30]
  obtain n where "heap ?s 0 = Some n"
    "cache_' (snd (Put 3 30 ?s)) = AList.delete (key_' n) (cache_' ?s) @ [(3, next_addr ?s)]"
    "heap (snd (Put 3 30 ?s)) 0 = None"
    using h(5) by blast
  then have "cache_' (snd (Put 3 30 ?s)) = [(2, 1), (3, 2)]" "heap (snd (Put 3 30 ?s)) 0 = None"
    unfolding trace_K2 by auto
  then show ?thesis using h by blast
qed

text \<open>
  K = \<open>2^31\<close> does not fit the \<open>int\<close> field of the comparator: the constructor passes the
  \<open>size_t\<close> to \<open>Compare(int k)\<close>, the field holds \<open>- 2^31\<close>, and the comparison with a
  history size converts it to \<open>2^64 - 2^31\<close>, so that the comparator takes every history
  of \<open>2^31\<close> timestamps for a partial one and orders the two nodes by key. The cache
  \<open>narrow_second (2^31)\<close> is reached from construction with capacity 2 by \<open>put(2,20)\<close>,
  \<open>2^31 - 1\<close> calls of \<open>get(2)\<close>, \<open>put(1,10)\<close> and \<open>2^31 - 1\<close> calls of \<open>get(1)\<close>.
\<close>

lemma length_stamps: "length (stamps a n) = n"
  by (simp add: stamps_def)

lemma stamps_snoc: "stamps a n @ [of_nat (a + n)] = stamps a (Suc n)"
  by (simp add: stamps_def)

lemma hd_stamps: "hd (stamps a (Suc n)) = of_nat a"
  by (simp add: stamps_def upt_conv_Cons del: upt_Suc)

lemma stamps_one: "stamps a (Suc 0) = [of_nat a]"
  by (simp add: stamps_def)

lemma unat_k31: "unat (2147483648 :: 64 word) = 2147483648"
  by simp

lemma ucast_k31: "(ucast (2147483648 :: 64 word) :: 32 word) = 2147483648"
  by simp

lemma scast_k31: "unat (scast (2147483648 :: 32 word) :: 64 word) = 18446744071562067968"
proof -
  have "sint (2147483648 :: 32 word) = - 2147483648" by simp
  then have "(scast (2147483648 :: 32 word) :: 64 word) = word_of_int (- 2147483648)"
    by (simp only: scast_eq)
  also have "\<dots> = (18446744071562067968 :: 64 word)" by simp
  finally have "unat (scast (2147483648 :: 32 word) :: 64 word) = unat (18446744071562067968 :: 64 word)"
    by (rule arg_cong)
  then show ?thesis by simp
qed

lemma of_nat_small: "n < 4294967296 \<Longrightarrow> (of_nat n :: 64 word) \<noteq> - 1"
proof
  assume a: "n < 4294967296" "(of_nat n :: 64 word) = - 1"
  have "unat (of_nat n :: 64 word) = n" using a(1) by (simp add: unat_of_nat)
  moreover have "unat (of_nat n :: 64 word) = 18446744073709551615"
    using a(2) by (simp only: unat_max_word64)
  ultimately show False using a(1) by simp
qed

lemma narrow_first_init: "run [Call_Put 2 20] (LRU_K_Cache 2 2147483648) = narrow_first 1"
  by (simp add: lruk_eval narrow_first_def stamps_def)

lemma narrow_first_Get:
  assumes "n < 2147483648"
  shows "snd (Get 2 (narrow_first n)) = narrow_first (Suc n)"
proof -
  have t: "(of_nat n :: 64 word) \<noteq> - 1" using assms by (intro of_nat_small) simp
  have h: "stamps (Suc 0) n @ [of_nat n + 1] = stamps (Suc 0) (Suc n)"
    using stamps_snoc [of 1 n] by (simp add: add.commute)
  have h': "stamps (Suc 0) 2147483647 @ [2147483648] = stamps (Suc 0) 2147483648"
    using stamps_snoc [of 1 2147483647] by simp
  show ?thesis
    using assms t by (simp add: lruk_eval narrow_first_def length_stamps h h')
qed

lemma narrow_first_Gets:
  "n + j \<le> 2147483648 \<Longrightarrow>
   run (replicate j (Call_Get 2)) (narrow_first n) = narrow_first (n + j)"
proof (induction j arbitrary: n)
  case 0
  then show ?case by simp
next
  case (Suc j)
  have "run (replicate j (Call_Get 2)) (narrow_first (Suc n)) = narrow_first (Suc n + j)"
    using Suc.prems by (intro Suc.IH) simp
  then show ?case using Suc.prems by (simp add: narrow_first_Get)
qed

lemma narrow_second_init: "snd (Put 1 10 (narrow_first 2147483648)) = narrow_second 1"
  by (simp add: lruk_eval narrow_first_def narrow_second_def stamps_one length_stamps)

lemma narrow_second_Get:
  assumes "m < 2147483648"
  shows "snd (Get 1 (narrow_second m)) = narrow_second (Suc m)"
proof -
  have t: "(of_nat (2147483648 + m) :: 64 word) \<noteq> - 1" using assms by (intro of_nat_small) simp
  have h: "stamps 2147483649 m @ [1 + of_nat (2147483648 + m)] = stamps 2147483649 (Suc m)"
    using stamps_snoc [of 2147483649 m] by (simp add: add.commute add.left_commute)
  have h': "stamps 2147483649 2147483647 @ [4294967296] = stamps 2147483649 2147483648"
    using stamps_snoc [of 2147483649 2147483647] by simp
  show ?thesis
    using assms t h by (simp add: lruk_eval narrow_second_def length_stamps scast_k31 h')
qed

lemma narrow_second_Gets:
  "m + j \<le> 2147483648 \<Longrightarrow>
   run (replicate j (Call_Get 1)) (narrow_second m) = narrow_second (m + j)"
proof (induction j arbitrary: m)
  case 0
  then show ?case by simp
next
  case (Suc j)
  have "run (replicate j (Call_Get 1)) (narrow_second (Suc m)) = narrow_second (Suc m + j)"
    using Suc.prems by (intro Suc.IH) simp
  then show ?case using Suc.prems by (simp add: narrow_second_Get)
qed

lemma narrow_second_reachable:
  "run (Call_Put 2 20 # replicate 2147483647 (Call_Get 2) @
        Call_Put 1 10 # replicate 2147483647 (Call_Get 1)) (LRU_K_Cache 2 2147483648)
   = narrow_second 2147483648"
proof -
  have a: "run (replicate 2147483647 (Call_Get 2)) (narrow_first 1) = narrow_first (1 + 2147483647)"
    by (rule narrow_first_Gets) simp
  have b: "run (replicate 2147483647 (Call_Get 1)) (narrow_second 1) = narrow_second (1 + 2147483647)"
    by (rule narrow_second_Gets) simp
  have c: "(1 :: nat) + 2147483647 = 2147483648" by simp
  have "run (Call_Put 2 20 # replicate 2147483647 (Call_Get 2) @
        Call_Put 1 10 # replicate 2147483647 (Call_Get 1)) (LRU_K_Cache 2 2147483648)
      = run (replicate 2147483647 (Call_Get 1)) (snd (Put 1 10
          (run (replicate 2147483647 (Call_Get 2)) (run [Call_Put 2 20] (LRU_K_Cache 2 2147483648)))))"
    by (simp only: run.simps run_append step.simps)
  also have "\<dots> = narrow_second 2147483648"
    by (simp only: narrow_first_init a c narrow_second_init b)
  finally show ?thesis .
qed

text \<open>
  Claim C1 at K = \<open>2^31\<close>. After \<open>put(2,20)\<close>, \<open>2^31 - 1\<close> calls of \<open>get(2)\<close>, \<open>put(1,10)\<close>
  and \<open>2^31 - 1\<close> calls of \<open>get(1)\<close> on a cache of capacity 2, the size has reached the
  capacity and both entries have full history: the history of key 2 holds the timestamps
  of its \<open>2^31\<close> accesses, the oldest being 1, and the history of key 1 holds the
  timestamps of its \<open>2^31\<close> accesses, the oldest being \<open>2^31 + 1\<close>. The ordering structure
  holds the entry of key 1 first. \<open>put(3,30)\<close> of the new key 3 succeeds and evicts key 1,
  the entry whose oldest retained timestamp is the larger one: key 2 stays indexed and
  \<open>get(1)\<close> returns nothing.
\<close>

theorem comparator_int_evicts_newer:
  "run (Call_Put 2 20 # replicate 2147483647 (Call_Get 2) @
        Call_Put 1 10 # replicate 2147483647 (Call_Get 1)) (LRU_K_Cache 2 2147483648)
     = narrow_second 2147483648 \<and>
   unat (capacity_' (narrow_second 2147483648)) = size_cache (narrow_second 2147483648) \<and>
   unat (k_' (narrow_second 2147483648)) = 2147483648 \<and>
   map_of (cache_' (narrow_second 2147483648)) 3 = None \<and>
   map_of (cache_' (narrow_second 2147483648)) 1 = Some 1 \<and>
   map_of (cache_' (narrow_second 2147483648)) 2 = Some 0 \<and>
   eviction_set_' (narrow_second 2147483648) = [1, 0] \<and>
   map_option (\<lambda>n. (key_' n, length (history_' n), hd (history_' n)))
     (heap (narrow_second 2147483648) 0) = Some (2, 2147483648, 1) \<and>
   map_option (\<lambda>n. (key_' n, length (history_' n), hd (history_' n)))
     (heap (narrow_second 2147483648) 1) = Some (1, 2147483648, 2147483649) \<and>
   fst (Put 3 30 (narrow_second 2147483648)) = Inr () \<and>
   cache_' (snd (Put 3 30 (narrow_second 2147483648))) = [(2, 0), (3, 2)] \<and>
   eviction_set_' (snd (Put 3 30 (narrow_second 2147483648))) = [0] \<and>
   heap (snd (Put 3 30 (narrow_second 2147483648))) 1 = None \<and>
   fst (Get 1 (snd (Put 3 30 (narrow_second 2147483648)))) = Inr None"
proof -
  have h0: "hd (stamps (Suc 0) 2147483648) = 1"
    using hd_stamps [of 1 2147483647] by simp
  have h1: "hd (stamps 2147483649 2147483648) = 2147483649"
    using hd_stamps [of 2147483649 2147483647] by simp
  show ?thesis
    by (rule conjI, rule narrow_second_reachable)
       (simp add: lruk_eval narrow_second_def length_stamps h0 h1)
qed

subsection \<open>C2: the conditional capacity bound\<close>

lemma full_history_candidate:
  assumes I: "lruk_inv s" and h: "has_full_history s"
  shows "eviction_set_' s \<noteq> []"
proof -
  obtain key p where kp: "(key, p) \<in> set (cache_' s)"
    "case heap s p of None \<Rightarrow> False | Some n \<Rightarrow> length (history_' n) = unat (k_' s)"
    using h unfolding has_full_history_def list_ex_iff by auto
  then obtain n where "heap s p = Some n" "length (history_' n) = unat (k_' s)"
    by (cases "heap s p") auto
  then have "p \<in> set (eviction_set_' s)"
    using inv_member_full [OF I, of p] by (simp add: is_full_def)
  then show ?thesis by auto
qed

lemma Put_size_bound:
  assumes I: "lruk_inv s" and sz: "size_cache s \<le> unat (capacity_' s)"
    and pv: "map_of (cache_' s) key = None \<and> unat (capacity_' s) \<le> size_cache s
               \<longrightarrow> has_full_history s"
  shows "size_cache (snd (Put key val s)) \<le> unat (capacity_' s)"
proof (cases "map_of (cache_' s) key")
  case (Some p)
  then show ?thesis using Put_existing_cache [OF I Some] sz by (simp add: size_cache_def)
next
  case None
  obtain s1 where E: "Evict s = Inr s1" using Evict_inv [OF I] by blast
  have c: "size_cache (snd (Put key val s)) = Suc (length (cache_' s1))"
    using Put_new_cache [OF I None E] by (simp add: size_cache_def)
  show ?thesis
  proof (cases "length (cache_' s) < unat (capacity_' s)")
    case True
    then have "s1 = s" using E by (simp add: Evict_below)
    then show ?thesis using True c by simp
  next
    case False
    then have "has_full_history s" using pv None by (simp add: size_cache_def)
    then have "eviction_set_' s \<noteq> []" using I by (rule full_history_candidate [rotated])
    then obtain p rest where es: "eviction_set_' s = p # rest"
      by (cases "eviction_set_' s") auto
    from Evict_head [OF I False es] obtain n where n: "heap s p = Some n"
      "Evict s = Inr (s\<lparr>eviction_set_' := rest,
        cache_' := AList.delete (key_' n) (cache_' s), heap := (heap s)(p := None)\<rparr>)"
      by (elim exE conjE)
    have look: "map_of (cache_' s) (key_' n) = Some p" using inv_lookup [OF I n(1)] .
    then have ne: "cache_' s \<noteq> []" by auto
    have "length (cache_' s1) = length (cache_' s) - 1"
      using E n(2) length_delete_present [OF invD_fst [OF I] look] by auto
    then show ?thesis using c sz ne by (cases "cache_' s") (auto simp: size_cache_def)
  qed
qed

lemma Remove_size: "size_cache (snd (Remove key s)) \<le> size_cache s"
  by (auto simp: Remove_def size_cache_def length_delete_le split: option.splits)

lemma step_size_bound:
  assumes "lruk_inv s" "size_cache s \<le> unat (capacity_' s)" "overflow_proviso [c] s"
  shows "size_cache (step c s) \<le> unat (capacity_' s)"
proof (cases c)
  case (Call_Put key val)
  then show ?thesis using Put_size_bound [OF assms(1,2), of key val] assms(3) by simp
next
  case (Call_Get key)
  then show ?thesis using assms(2) Get_fields [of key s] by (simp add: size_cache_def)
next
  case (Call_Remove key)
  then show ?thesis using assms(2) Remove_size [of key s] by simp
qed (use assms(2) in \<open>simp_all add: contains_def\<close>)

lemma run_size_bound:
  "lruk_inv s \<Longrightarrow> size_cache s \<le> unat (capacity_' s) \<Longrightarrow> overflow_proviso cs s \<Longrightarrow>
   size_cache (run (take n cs) s) \<le> unat (capacity_' s)"
proof (induction cs arbitrary: s n)
  case Nil
  then show ?case by simp
next
  case (Cons c cs)
  show ?case
  proof (cases n)
    case 0
    then show ?thesis using Cons.prems(2) by simp
  next
    case (Suc m)
    have p1: "overflow_proviso [c] s" and p2: "overflow_proviso cs (step c s)"
      using Cons.prems(3) by simp_all
    have "size_cache (step c s) \<le> unat (capacity_' (step c s))"
      using step_size_bound [OF Cons.prems(1,2) p1] by (simp add: step_fields)
    then have "size_cache (run (take m cs) (step c s)) \<le> unat (capacity_' (step c s))"
      using step_inv [OF Cons.prems(1)] p2 by (intro Cons.IH)
    then show ?thesis using Suc by (simp add: step_fields)
  qed
qed

text \<open>
  Claim C2. For every sequence \<open>cs\<close> of calls on a cache constructed with capacity
  \<open>C \<ge> 1\<close> and \<open>K \<ge> 1\<close>: if at every put of a new key made while the size has reached the
  capacity some indexed entry has full history (\<open>overflow_proviso\<close>), then after every
  prefix of \<open>cs\<close> the size is at most \<open>C\<close>.
\<close>

theorem size_bounded_under_proviso:
  fixes cs :: "('k::linorder, 'v) call list"
  assumes "0 < unat C" and "0 < unat K" and "overflow_proviso cs (LRU_K_Cache C K)"
  shows "\<forall>n. size_cache (run (take n cs) (LRU_K_Cache C K)) \<le> unat C"
proof
  fix n
  let ?i = "LRU_K_Cache C K :: ('k, 'v) LRU_K_Cache"
  have I: "lruk_inv ?i" using assms(2) by (rule inv_init)
  have z: "size_cache ?i \<le> unat (capacity_' ?i)" by (simp add: size_cache_def init_fields)
  have "size_cache (run (take n cs) ?i) \<le> unat (capacity_' ?i)"
    using I z assms(3) by (rule run_size_bound)
  then show "size_cache (run (take n cs) ?i) \<le> unat C" by (simp add: init_fields)
qed

text \<open>
  The instance K = 1, capacity 1 with \<open>put(1,10); put(2,20)\<close>: the second put finds the
  index full and the entry of key 1 with full history.
\<close>

theorem size_bounded_under_proviso_witness:
  "0 < unat (1 :: size_t) \<and>
   overflow_proviso [Call_Put (1::int) (10::int), Call_Put 2 20] (LRU_K_Cache 1 1) \<and>
   size_cache (run [Call_Put (1::int) (10::int), Call_Put 2 20] (LRU_K_Cache 1 1)) \<le> unat (1 :: size_t)"
proof -
  have pv: "overflow_proviso [Call_Put (1::int) (10::int), Call_Put 2 20] (LRU_K_Cache 1 1)"
    by (simp add: lruk_eval has_full_history_def)
  have k: "0 < unat (1 :: size_t)" by simp
  from size_bounded_under_proviso [OF k k pv]
  have "size_cache (run (take 2 [Call_Put (1::int) (10::int), Call_Put 2 20]) (LRU_K_Cache 1 1))
          \<le> unat (1 :: size_t)"
    by (rule spec)
  then show ?thesis using pv by simp
qed

subsection \<open>C3: bounded histories and membership in the ordering structure\<close>

lemma access_history:
  assumes I: "lruk_inv s" and look: "map_of (cache_' s) key = Some p"
    and hp: "heap s p = Some n"
    and c: "c = Call_Get key \<or> c = Call_Put key val"
  shows "\<exists>n'. heap (step c s) p = Some n' \<and>
           history_' n' =
             (if current_timestamp_' s = - 1 then history_' n
              else (if length (history_' n) < unat (k_' s) then history_' n
                    else tl (history_' n)) @ [current_timestamp_' s + 1]) \<and>
           current_timestamp_' (step c s) =
             (if current_timestamp_' s = - 1 then - 1 else current_timestamp_' s + 1) \<and>
           (length (history_' n) = unat (k_' s) \<longrightarrow>
              length (history_' n') = unat (k_' s) \<and> p \<in> set (eviction_set_' (step c s)))"
proof (cases "current_timestamp_' s = - 1")
  case True
  have "step c s = s"
    using c
  proof
    assume "c = Call_Get key"
    then show ?thesis using True look by (simp add: Get_def ResourceAccess_def)
  next
    assume "c = Call_Put key val"
    then show ?thesis using True look by (simp add: Put_def ResourceAccess_def)
  qed
  moreover have "p \<in> set (eviction_set_' s)" if "length (history_' n) = unat (k_' s)"
    using inv_member_full [OF I, of p] hp that by (simp add: is_full_def)
  ultimately show ?thesis using True hp by simp
next
  case False
  from ResourceAccess_inv [OF I hp False] obtain s' n' where r: "ResourceAccess p s = Inr s'"
    "lruk_inv s'" "heap s' = (heap s)(p \<mapsto> n')" "key_' n' = key_' n" "value_' n' = value_' n"
    "history_' n' =
       (if length (history_' n) < unat (k_' s) then history_' n else tl (history_' n))
         @ [current_timestamp_' s + 1]"
    "current_timestamp_' s' = current_timestamp_' s + 1"
    by (elim exE conjE)
  have len: "length (history_' n') = unat (k_' s)" if "length (history_' n) = unat (k_' s)"
    using r(6) that invD_k [OF I] by simp
  have hs: "heap s' p = Some n'" by (simp add: r(3))
  have "\<exists>m. heap (step c s) p = Some m \<and> history_' m = history_' n' \<and>
          current_timestamp_' (step c s) = current_timestamp_' s + 1"
    using c
  proof
    assume "c = Call_Get key"
    then show ?thesis by (simp add: Get_def look r(1,7) hs)
  next
    assume "c = Call_Put key val"
    then show ?thesis by (simp add: Put_def look r(1,7) hs)
  qed
  then obtain m where m: "heap (step c s) p = Some m" "history_' m = history_' n'"
    "current_timestamp_' (step c s) = current_timestamp_' s + 1" by blast
  have Ic: "lruk_inv (step c s)" using I by (rule step_inv)
  have "p \<in> set (eviction_set_' (step c s))" if "length (history_' n) = unat (k_' s)"
  proof -
    have "is_full (step c s) m" by (simp add: is_full_def step_fields m(2) len [OF that])
    then show ?thesis using inv_member_full [OF Ic, of p] m(1) by blast
  qed
  then show ?thesis using m r(6) len False by simp
qed

text \<open>
  Claim C3. In every cache \<open>s\<close> reached by a sequence of calls from construction with
  \<open>K \<ge> 1\<close>, every indexed entry has a live node with that key whose history holds at most
  K timestamps, the node is a member of the ordering structure exactly when its history
  holds K timestamps, and the ordering structure holds indexed entries only, each once.
  An access to an indexed entry (a get of its key, or a put on its key) leaves the
  history and the clock as they were when the clock is exhausted; otherwise the clock
  advances by one and the history takes the new clock value as its last timestamp,
  after dropping its oldest timestamp when it held K of them. An entry with K
  timestamps has K timestamps after the access and is a member of the ordering
  structure after it.
\<close>

theorem history_bound_and_membership:
  assumes "0 < unat K" and "s = run cs (LRU_K_Cache C K)"
  shows "(\<forall>key p. map_of (cache_' s) key = Some p \<longrightarrow>
            (\<exists>n. heap s p = Some n \<and> key_' n = key \<and> length (history_' n) \<le> unat K \<and>
                 (p \<in> set (eviction_set_' s) \<longleftrightarrow> length (history_' n) = unat K))) \<and>
         set (eviction_set_' s) \<subseteq> snd ` set (cache_' s) \<and> distinct (eviction_set_' s) \<and>
         (\<forall>key p n c val.
            map_of (cache_' s) key = Some p \<and> heap s p = Some n \<and>
            (c = Call_Get key \<or> c = Call_Put key val) \<longrightarrow>
            (\<exists>n'. heap (step c s) p = Some n' \<and>
               history_' n' =
                 (if current_timestamp_' s = - 1 then history_' n
                  else (if length (history_' n) < unat K then history_' n
                        else tl (history_' n)) @ [current_timestamp_' s + 1]) \<and>
               current_timestamp_' (step c s) =
                 (if current_timestamp_' s = - 1 then - 1 else current_timestamp_' s + 1) \<and>
               (length (history_' n) = unat K \<longrightarrow>
                  length (history_' n') = unat K \<and> p \<in> set (eviction_set_' (step c s)))))"
proof -
  have I: "lruk_inv s" using assms by (simp add: reachable_inv)
  have K: "k_' s = K" using assms(2) by (simp add: run_k init_fields)
  have a: "\<exists>n. heap s p = Some n \<and> key_' n = key \<and> length (history_' n) \<le> unat K \<and>
                 (p \<in> set (eviction_set_' s) \<longleftrightarrow> length (history_' n) = unat K)"
    if "map_of (cache_' s) key = Some p" for key p
  proof -
    have mem: "(key, p) \<in> set (cache_' s)" using that by (rule map_of_SomeD)
    then obtain n where n: "heap s p = Some n" using invD_alloc [OF I mem] by auto
    have "key_' n = key" using inv_cache_key [OF I mem n] .
    moreover have "length (history_' n) \<le> unat K" using invD_len [OF I n] by (simp add: K)
    moreover have "p \<in> set (eviction_set_' s) \<longleftrightarrow> length (history_' n) = unat K"
      using inv_member_full [OF I, of p] n by (simp add: is_full_def K)
    ultimately show ?thesis using n by simp
  qed
  have b: "set (eviction_set_' s) \<subseteq> snd ` set (cache_' s)"
  proof
    fix p assume "p \<in> set (eviction_set_' s)"
    then obtain n where "heap s p = Some n" using inv_member_full [OF I, of p] by auto
    then have "(key_' n, p) \<in> set (cache_' s)" using I by (rule inv_heap_cache [rotated])
    then show "p \<in> snd ` set (cache_' s)" by force
  qed
  have c: "\<exists>n'. heap (step c s) p = Some n' \<and>
               history_' n' =
                 (if current_timestamp_' s = - 1 then history_' n
                  else (if length (history_' n) < unat K then history_' n
                        else tl (history_' n)) @ [current_timestamp_' s + 1]) \<and>
               current_timestamp_' (step c s) =
                 (if current_timestamp_' s = - 1 then - 1 else current_timestamp_' s + 1) \<and>
               (length (history_' n) = unat K \<longrightarrow>
                  length (history_' n') = unat K \<and> p \<in> set (eviction_set_' (step c s)))"
    if "map_of (cache_' s) key = Some p \<and> heap s p = Some n \<and>
        (c = Call_Get key \<or> c = Call_Put key val)" for key p n c val
  proof -
    have t: "map_of (cache_' s) key = Some p" "heap s p = Some n"
      "c = Call_Get key \<or> c = Call_Put key val" using that by blast+
    show ?thesis using access_history [OF I t] by (simp only: K)
  qed
  show ?thesis
    by (intro conjI allI impI; (erule a | rule b | rule inv_distinct_set [OF I] | erule c))
qed

text \<open>
  The instance K = 2 after \<open>put(1,10); put(1,11); put(2,20); put(2,21)\<close>, at key 1: its
  history is \<open>[1, 2]\<close>, and \<open>[2, 5]\<close> after \<open>get(1)\<close>.
\<close>

theorem history_bound_and_membership_witness:
  "0 < unat (2 :: size_t) \<and>
   map_of (cache_' (run [Call_Put (1::int) (10::int), Call_Put 1 11, Call_Put 2 20, Call_Put 2 21]
      (LRU_K_Cache 2 2))) 1 = Some 0 \<and>
   (\<exists>n. heap (run [Call_Put (1::int) (10::int), Call_Put 1 11, Call_Put 2 20, Call_Put 2 21]
            (LRU_K_Cache 2 2)) 0 = Some n \<and> length (history_' n) \<le> unat (2 :: size_t) \<and>
        0 \<in> set (eviction_set_' (run [Call_Put (1::int) (10::int), Call_Put 1 11,
            Call_Put 2 20, Call_Put 2 21] (LRU_K_Cache 2 2))) \<and>
        history_' n = [1, 2]) \<and>
   (\<exists>n'. heap (step (Call_Get 1) (run [Call_Put (1::int) (10::int), Call_Put 1 11, Call_Put 2 20,
            Call_Put 2 21] (LRU_K_Cache 2 2))) 0 = Some n' \<and>
         history_' n' = [2, 5] \<and>
         0 \<in> set (eviction_set_' (step (Call_Get 1) (run [Call_Put (1::int) (10::int),
            Call_Put 1 11, Call_Put 2 20, Call_Put 2 21] (LRU_K_Cache 2 2)))))"
proof -
  let ?cs = "[Call_Put (1::int) (10::int), Call_Put 1 11, Call_Put 2 20, Call_Put 2 21]"
  let ?s = "run ?cs (LRU_K_Cache 2 2)"
  let ?n = "\<lparr>key_' = 1 :: int, value_' = 11 :: int, history_' = [1, 2], is_evictable_' = True\<rparr>"
  have k: "0 < unat (2 :: size_t)" by simp
  have m: "map_of (cache_' ?s) 1 = Some 0" unfolding trace_K2 by simp
  have hp: "heap ?s 0 = Some ?n" unfolding trace_K2 by simp
  have ts: "current_timestamp_' ?s = 4" unfolding trace_K2 by simp
  have mem: "0 \<in> set (eviction_set_' ?s)" unfolding trace_K2 by simp
  note T = history_bound_and_membership [OF k refl, of ?cs 2]
  from T have "\<forall>key p n c val.
            map_of (cache_' ?s) key = Some p \<and> heap ?s p = Some n \<and>
            (c = Call_Get key \<or> c = Call_Put key val) \<longrightarrow>
            (\<exists>n'. heap (step c ?s) p = Some n' \<and>
               history_' n' =
                 (if current_timestamp_' ?s = - 1 then history_' n
                  else (if length (history_' n) < unat (2 :: size_t) then history_' n
                        else tl (history_' n)) @ [current_timestamp_' ?s + 1]) \<and>
               current_timestamp_' (step c ?s) =
                 (if current_timestamp_' ?s = - 1 then - 1 else current_timestamp_' ?s + 1) \<and>
               (length (history_' n) = unat (2 :: size_t) \<longrightarrow>
                  length (history_' n') = unat (2 :: size_t) \<and>
                  p \<in> set (eviction_set_' (step c ?s))))"
    by (elim conjE)
  then have "\<exists>n'. heap (step (Call_Get 1) ?s) 0 = Some n' \<and>
               history_' n' =
                 (if current_timestamp_' ?s = - 1 then history_' ?n
                  else (if length (history_' ?n) < unat (2 :: size_t) then history_' ?n
                        else tl (history_' ?n)) @ [current_timestamp_' ?s + 1]) \<and>
               current_timestamp_' (step (Call_Get 1) ?s) =
                 (if current_timestamp_' ?s = - 1 then - 1 else current_timestamp_' ?s + 1) \<and>
               (length (history_' ?n) = unat (2 :: size_t) \<longrightarrow>
                  length (history_' n') = unat (2 :: size_t) \<and>
                  0 \<in> set (eviction_set_' (step (Call_Get 1) ?s)))"
    using m hp by blast
  then have a: "\<exists>n'. heap (step (Call_Get 1) ?s) 0 = Some n' \<and> history_' n' = [2, 5] \<and>
               0 \<in> set (eviction_set_' (step (Call_Get 1) ?s))"
    unfolding trace_K2 by auto
  have b: "\<exists>n. heap ?s 0 = Some n \<and> length (history_' n) \<le> unat (2 :: size_t) \<and>
        0 \<in> set (eviction_set_' ?s) \<and> history_' n = [1, 2]"
    using hp mem by simp
  show ?thesis using k m a b by (intro conjI)
qed

subsection \<open>C4: construction with capacity 0 or K 0\<close>

text \<open>
  Claim C4 says that constructing a cache with capacity 0 or K 0 fails and that no such
  cache is usable. The constructor has no check: a cache of capacity 0 (K = 1) is built,
  takes \<open>put(1,7)\<close> and returns 7 on \<open>get(1)\<close>; a cache with K = 0 is built and takes
  \<open>put(1,7)\<close>, after which \<open>contains(1)\<close> holds.
\<close>

theorem constructor_accepts_zero_counterexample:
  "capacity_' (LRU_K_Cache 0 1 :: (int, int) LRU_K_Cache) = 0 \<and>
   fst (Put (1::int) (7::int) (LRU_K_Cache 0 1)) = Inr () \<and>
   fst (Get 1 (snd (Put (1::int) (7::int) (LRU_K_Cache 0 1)))) = Inr (Some 7) \<and>
   k_' (LRU_K_Cache 1 0 :: (int, int) LRU_K_Cache) = 0 \<and>
   fst (Put (1::int) (7::int) (LRU_K_Cache 1 0)) = Inr () \<and>
   fst (contains 1 (snd (Put (1::int) (7::int) (LRU_K_Cache 1 0))))"
  by (simp add: lruk_eval)

text \<open>
  A get of an indexed key returns the stored value, and a put followed by a get of the
  same key returns the value put, in every cache that satisfies the invariant and whose
  clock has room for the accesses.
\<close>

lemma Get_hit:
  assumes I: "lruk_inv s" and look: "map_of (cache_' s) key = Some p"
    and hp: "heap s p = Some m" and ts: "current_timestamp_' s \<noteq> - 1"
  shows "fst (Get key s) = Inr (Some (value_' m))"
proof -
  from ResourceAccess_inv [OF I hp ts] obtain s' n' where r: "ResourceAccess p s = Inr s'"
    "heap s' = (heap s)(p \<mapsto> n')" "value_' n' = value_' m"
    by (elim exE conjE)
  have "heap s' p = Some n'" by (simp add: r(2))
  then show ?thesis by (simp add: Get_def look r(1,3))
qed

lemma Put_result:
  assumes I: "lruk_inv s" and ts: "current_timestamp_' s \<noteq> - 1"
  shows "\<exists>p m. fst (Put key val s) = Inr () \<and> lruk_inv (snd (Put key val s)) \<and>
           map_of (cache_' (snd (Put key val s))) key = Some p \<and>
           heap (snd (Put key val s)) p = Some m \<and> value_' m = val \<and>
           current_timestamp_' (snd (Put key val s)) = current_timestamp_' s + 1"
proof (cases "map_of (cache_' s) key")
  case (Some p)
  have mem: "(key, p) \<in> set (cache_' s)" using Some by (rule map_of_SomeD)
  then obtain n where hp: "heap s p = Some n" using invD_alloc [OF I mem] by auto
  from ResourceAccess_inv [OF I hp ts] obtain s' n' where r: "ResourceAccess p s = Inr s'"
    "heap s' = (heap s)(p \<mapsto> n')" "cache_' s' = cache_' s"
    "current_timestamp_' s' = current_timestamp_' s + 1"
    by (elim exE conjE)
  have hs: "heap s' p = Some n'" by (simp add: r(2))
  have P: "Put key val s = (Inr (), s'\<lparr>heap := (heap s')(p \<mapsto> n'\<lparr>value_' := val\<rparr>)\<rparr>)"
    by (simp add: Put_def Some r(1) hs)
  have "lruk_inv (snd (Put key val s))" using Put_inv [OF I] by simp
  then show ?thesis using Some by (simp add: P r(3,4))
next
  case None
  from Evict_inv [OF I] obtain s1 where E: "Evict s = Inr s1" "lruk_inv s1"
    "current_timestamp_' s1 = current_timestamp_' s"
    by (elim exE conjE)
  have new1: "map_of (cache_' s1) key = None" using I None E(1) by (rule Evict_keeps_absent)
  define p where "p = next_addr s1"
  define s3 where "s3 = s1\<lparr>heap := (heap s1)(p \<mapsto> LRUNode key val), next_addr := Suc p,
      cache_' := AList.update key p (cache_' s1)\<rparr>"
  have I3: "lruk_inv s3" using inv_alloc [OF E(2) new1] by (simp add: s3_def p_def)
  have hp: "heap s3 p = Some (LRUNode key val)" by (simp add: s3_def)
  have ts3: "current_timestamp_' s3 \<noteq> - 1" using ts by (simp add: s3_def E(3))
  have P: "Put key val s = (case ResourceAccess p s3 of Inl e \<Rightarrow> (Inl e, s3) | Inr s4 \<Rightarrow> (Inr (), s4))"
    using None E(1) by (simp add: Put_def Let_def s3_def p_def LRUNode_def cong: sum.case_cong)
  from ResourceAccess_inv [OF I3 hp ts3] obtain s4 n' where r: "ResourceAccess p s3 = Inr s4"
    "lruk_inv s4" "heap s4 = (heap s3)(p \<mapsto> n')" "value_' n' = value_' (LRUNode key val)"
    "cache_' s4 = cache_' s3" "current_timestamp_' s4 = current_timestamp_' s3 + 1"
    by (elim exE conjE)
  have "Put key val s = (Inr (), s4)" by (simp add: P r(1))
  moreover have "map_of (cache_' s4) key = Some p" by (simp add: r(5) s3_def update_conv')
  moreover have "heap s4 p = Some n'" by (simp add: r(3))
  moreover have "value_' n' = val" by (simp add: r(4) LRUNode_def)
  moreover have "current_timestamp_' s4 = current_timestamp_' s + 1"
    by (simp add: r(6) s3_def E(3))
  ultimately show ?thesis using r(2) by simp
qed

lemma Put_then_Get:
  assumes I: "lruk_inv s" and t1: "current_timestamp_' s \<noteq> - 1"
    and t2: "current_timestamp_' s \<noteq> - 2"
  shows "fst (Put key val s) = Inr () \<and> fst (Get key (snd (Put key val s))) = Inr (Some val)"
proof -
  from Put_result [OF I t1, of key val] obtain p m where r: "fst (Put key val s) = Inr ()"
    "lruk_inv (snd (Put key val s))" "map_of (cache_' (snd (Put key val s))) key = Some p"
    "heap (snd (Put key val s)) p = Some m" "value_' m = val"
    "current_timestamp_' (snd (Put key val s)) = current_timestamp_' s + 1"
    by (elim exE conjE)
  have "current_timestamp_' s + 1 \<noteq> - 1"
  proof
    assume "current_timestamp_' s + 1 = - 1"
    then have "current_timestamp_' s + 1 - 1 = - 1 - 1" by (rule arg_cong)
    then show False using t2 by simp
  qed
  then have "current_timestamp_' (snd (Put key val s)) \<noteq> - 1" by (simp add: r(6))
  then have "fst (Get key (snd (Put key val s))) = Inr (Some (value_' m))"
    using r(2,3,4) by (intro Get_hit)
  then show ?thesis using r(1,5) by simp
qed

text \<open>
  Claim C4, amended. For every capacity and every K, zero included, the constructor
  returns a cache with these two values, an empty index, an empty ordering structure and
  clock 0. With \<open>K \<ge> 1\<close> and any capacity, zero included, the cache is usable: in every
  cache reached by a sequence of calls, put, get and remove are free of undefined
  behaviour, and when the clock has room for two accesses a put succeeds and the
  following get of the same key returns the value put. With K = 0 and any capacity, the
  first put on the new cache succeeds and leaves one indexed entry, and the following
  get of that key, like a following put on that key, is undefined behaviour.
\<close>

theorem constructor_performs_no_validation:
  fixes key :: "'k::linorder" and val val' :: 'v
  shows
  "capacity_' (LRU_K_Cache C K :: ('k, 'v) LRU_K_Cache) = C \<and>
   k_' (LRU_K_Cache C K :: ('k, 'v) LRU_K_Cache) = K \<and>
   cache_' (LRU_K_Cache C K :: ('k, 'v) LRU_K_Cache) = [] \<and>
   eviction_set_' (LRU_K_Cache C K :: ('k, 'v) LRU_K_Cache) = [] \<and>
   current_timestamp_' (LRU_K_Cache C K :: ('k, 'v) LRU_K_Cache) = 0 \<and>
   size_cache (LRU_K_Cache C K :: ('k, 'v) LRU_K_Cache) = 0 \<and>
   (0 < unat K \<longrightarrow>
      (\<forall>cs (s :: ('k, 'v) LRU_K_Cache). s = run cs (LRU_K_Cache C K) \<longrightarrow>
         fst (Put key val s) \<noteq> Inl Undefined_behavior \<and>
         fst (Get key s) \<noteq> Inl Undefined_behavior \<and>
         fst (Remove key s) \<noteq> Inl Undefined_behavior \<and>
         (current_timestamp_' s \<noteq> - 1 \<and> current_timestamp_' s \<noteq> - 2 \<longrightarrow>
            fst (Put key val s) = Inr () \<and>
            fst (Get key (snd (Put key val s))) = Inr (Some val)))) \<and>
   fst (Put key val (LRU_K_Cache C 0)) = Inr () \<and>
   fst (contains key (snd (Put key val (LRU_K_Cache C 0)))) \<and>
   size_cache (snd (Put key val (LRU_K_Cache C 0))) = 1 \<and>
   fst (Get key (snd (Put key val (LRU_K_Cache C 0)))) = Inl Undefined_behavior \<and>
   fst (Put key val' (snd (Put key val (LRU_K_Cache C 0)))) = Inl Undefined_behavior"
proof -
  have a: "fst (Put key val s) \<noteq> Inl Undefined_behavior \<and>
         fst (Get key s) \<noteq> Inl Undefined_behavior \<and>
         fst (Remove key s) \<noteq> Inl Undefined_behavior \<and>
         (current_timestamp_' s \<noteq> - 1 \<and> current_timestamp_' s \<noteq> - 2 \<longrightarrow>
            fst (Put key val s) = Inr () \<and>
            fst (Get key (snd (Put key val s))) = Inr (Some val))"
    if K: "0 < unat K" and s: "s = run cs (LRU_K_Cache C K)"
    for cs and s :: "('k, 'v) LRU_K_Cache"
  proof -
    have I: "lruk_inv s" using K s by (simp add: reachable_inv)
    show ?thesis
      using Put_inv [OF I, of key val] Get_inv [OF I, of key] Remove_inv [OF I, of key]
        Put_then_Get [OF I, of key val] by blast
  qed
  have b: "capacity_' (LRU_K_Cache C K :: ('k, 'v) LRU_K_Cache) = C \<and>
   k_' (LRU_K_Cache C K :: ('k, 'v) LRU_K_Cache) = K \<and>
   cache_' (LRU_K_Cache C K :: ('k, 'v) LRU_K_Cache) = [] \<and>
   eviction_set_' (LRU_K_Cache C K :: ('k, 'v) LRU_K_Cache) = [] \<and>
   current_timestamp_' (LRU_K_Cache C K :: ('k, 'v) LRU_K_Cache) = 0 \<and>
   size_cache (LRU_K_Cache C K :: ('k, 'v) LRU_K_Cache) = 0"
    by (simp add: init_fields size_cache_def)
  have c: "fst (Put key val (LRU_K_Cache C 0)) = Inr () \<and>
   fst (contains key (snd (Put key val (LRU_K_Cache C 0)))) \<and>
   size_cache (snd (Put key val (LRU_K_Cache C 0))) = 1 \<and>
   fst (Get key (snd (Put key val (LRU_K_Cache C 0)))) = Inl Undefined_behavior \<and>
   fst (Put key val' (snd (Put key val (LRU_K_Cache C 0)))) = Inl Undefined_behavior"
    by (simp add: lruk_eval)
  show ?thesis using a b c by blast
qed

text \<open>
  The instance of capacity 0 and K = 1: \<open>put(1,7)\<close> on the new cache succeeds and
  \<open>get(1)\<close> returns 7.
\<close>

theorem constructor_performs_no_validation_witness:
  "0 < unat (1 :: size_t) \<and>
   current_timestamp_' (run [] (LRU_K_Cache 0 1 :: (int, int) LRU_K_Cache)) = 0 \<and>
   fst (Put (1::int) (7::int) (run [] (LRU_K_Cache 0 1))) = Inr () \<and>
   fst (Get (1::int) (snd (Put 1 (7::int) (run [] (LRU_K_Cache 0 1))))) = Inr (Some 7)"
proof -
  have k: "0 < unat (1 :: size_t)" by simp
  have t: "current_timestamp_' (run [] (LRU_K_Cache 0 1 :: (int, int) LRU_K_Cache)) = 0"
    by (simp add: init_fields)
  have n: "(0 :: 64 word) \<noteq> - 1" "(0 :: 64 word) \<noteq> - 2" by simp_all
  from constructor_performs_no_validation [of 0 1 "1::int" "7::int"] k
  have "\<forall>cs (s :: (int, int) LRU_K_Cache). s = run cs (LRU_K_Cache 0 1) \<longrightarrow>
         fst (Put 1 7 s) \<noteq> Inl Undefined_behavior \<and>
         fst (Get 1 s) \<noteq> Inl Undefined_behavior \<and>
         fst (Remove 1 s) \<noteq> Inl Undefined_behavior \<and>
         (current_timestamp_' s \<noteq> - 1 \<and> current_timestamp_' s \<noteq> - 2 \<longrightarrow>
            fst (Put 1 7 s) = Inr () \<and>
            fst (Get 1 (snd (Put 1 7 s))) = Inr (Some 7))"
    by blast
  then have "fst (Put (1::int) (7::int) (run [] (LRU_K_Cache 0 1))) = Inr () \<and>
    fst (Get (1::int) (snd (Put 1 (7::int) (run [] (LRU_K_Cache 0 1))))) = Inr (Some 7)"
    using t n by (metis (no_types))
  then show ?thesis using k t by blast
qed

subsection \<open>C5: clock exhaustion\<close>

text \<open>
  Claim C5 (clock exhaustion leaves the cache as it was). \<open>Get\<close> of an indexed key and
  \<open>Put\<close> on an indexed key call \<open>ResourceAccess\<close> first: when the clock is at its maximum
  they fail and the cache is unchanged.
\<close>

lemma overflow_Get_unchanged:
  "current_timestamp_' s = - 1 \<Longrightarrow> map_of (cache_' s) key = Some p \<Longrightarrow>
   Get key s = (Inl Timestamp_overflow, s)"
  by (simp add: Get_def ResourceAccess_def)

lemma overflow_Put_existing_unchanged:
  "current_timestamp_' s = - 1 \<Longrightarrow> map_of (cache_' s) key = Some p \<Longrightarrow>
   Put key val s = (Inl Timestamp_overflow, s)"
  by (simp add: Put_def ResourceAccess_def)

text \<open>
  The cache \<open>clock_state (- 1)\<close> is the cache of capacity 1 and K = 1 after \<open>put(1,7)\<close>
  and \<open>2^64 - 2\<close> calls of \<open>get(1)\<close>: its clock is at the maximum.
\<close>

lemma clock_state_init: "run [Call_Put 1 7] (LRU_K_Cache 1 1) = clock_state 1"
  by (simp add: lruk_eval clock_state_def)

lemma clock_state_Get: "t \<noteq> - 1 \<Longrightarrow> snd (Get 1 (clock_state t)) = clock_state (t + 1)"
  by (simp add: lruk_eval clock_state_def)

lemma clock_state_Gets:
  "unat t + n < 2 ^ 64 \<Longrightarrow> run (replicate n (Call_Get 1)) (clock_state t) = clock_state (t + of_nat n)"
proof (induction n arbitrary: t)
  case 0
  then show ?case by simp
next
  case (Suc n)
  have ne: "t \<noteq> - 1"
  proof
    assume "t = - 1"
    then have "unat t = 18446744073709551615" by (simp only: unat_max_word64)
    then show False using Suc.prems by simp
  qed
  then have "t + 1 \<noteq> 0" by (metis add.commute add_eq_0_iff)
  then have "unat (t + 1) = Suc (unat t)" by (simp add: unatSuc add.commute)
  then have "unat (t + 1) + n < 2 ^ 64" using Suc.prems by simp
  then have "run (replicate n (Call_Get 1)) (clock_state (t + 1)) = clock_state (t + 1 + of_nat n)"
    by (rule Suc.IH)
  then show ?case using ne by (simp add: clock_state_Get add.assoc)
qed

lemma clock_state_reachable:
  "run (Call_Put 1 7 # replicate (2 ^ 64 - 2) (Call_Get 1)) (LRU_K_Cache 1 1) = clock_state (- 1)"
proof -
  have "run (replicate (2 ^ 64 - 2) (Call_Get 1)) (clock_state 1)
        = clock_state (1 + of_nat (2 ^ 64 - 2))"
    by (rule clock_state_Gets) simp
  moreover have "(1 :: 64 word) + of_nat (2 ^ 64 - 2) = - 1" by simp
  moreover have "run (Call_Put 1 (7::int) # replicate (2 ^ 64 - 2) (Call_Get 1)) (LRU_K_Cache 1 1)
        = run (replicate (2 ^ 64 - 2) (Call_Get 1)) (run [Call_Put (1::int) (7::int)] (LRU_K_Cache 1 1))"
    by (simp only: run.simps)
  ultimately show ?thesis by (simp only: clock_state_init)
qed

text \<open>
  Claim C5 at \<open>clock_state (- 1)\<close>. The clock is at its maximum and key 2 is not indexed.
  \<open>put(2,9)\<close> fails with the timestamp overflow, and the cache it leaves is not the cache
  it found: key 1 has been evicted (from the index, the ordering structure and the
  store) and key 2 is indexed with a node that has an empty history.
\<close>

theorem clock_exhaustion_partial_update:
  "current_timestamp_' (clock_state (- 1)) = - 1 \<and>
   map_of (cache_' (clock_state (- 1))) 2 = None \<and>
   fst (Put 2 9 (clock_state (- 1))) = Inl Timestamp_overflow \<and>
   map_of (cache_' (snd (Put 2 9 (clock_state (- 1))))) 1 = None \<and>
   eviction_set_' (snd (Put 2 9 (clock_state (- 1)))) = [] \<and>
   heap (snd (Put 2 9 (clock_state (- 1)))) 0 = None \<and>
   map_of (cache_' (snd (Put 2 9 (clock_state (- 1))))) 2 = Some 1 \<and>
   heap (snd (Put 2 9 (clock_state (- 1)))) 1
     = Some \<lparr>key_' = 2, value_' = 9, history_' = [], is_evictable_' = False\<rparr> \<and>
   snd (Put 2 9 (clock_state (- 1))) \<noteq> clock_state (- 1)"
proof -
  have "cache_' (snd (Put 2 9 (clock_state (- 1)))) = [(2, 1)]"
    by (simp add: lruk_eval clock_state_def)
  moreover have "cache_' (clock_state (- 1)) = [(1, 0)]" by (simp add: clock_state_def)
  ultimately have "snd (Put 2 9 (clock_state (- 1))) \<noteq> clock_state (- 1)" by auto
  then show ?thesis by (simp add: lruk_eval clock_state_def)
qed

subsection \<open>C6: entries below K accesses are never evicted\<close>

lemma Put_no_candidates:
  assumes I: "lruk_inv s" and es: "eviction_set_' s = []" and new: "map_of (cache_' s) key = None"
    and ts: "current_timestamp_' s \<noteq> - 1" and K: "2 \<le> unat (k_' s)"
  shows "lruk_inv (snd (Put key val s)) \<and> eviction_set_' (snd (Put key val s)) = [] \<and>
         cache_' (snd (Put key val s)) = cache_' s @ [(key, next_addr s)] \<and>
         current_timestamp_' (snd (Put key val s)) = current_timestamp_' s + 1 \<and>
         fst (Put key val s) = Inr ()"
proof -
  have E: "Evict s = Inr s" using es by (rule Evict_empty)
  define p where "p = next_addr s"
  define s3 where "s3 = s\<lparr>heap := (heap s)(p \<mapsto> LRUNode key val), next_addr := Suc p,
      cache_' := AList.update key p (cache_' s)\<rparr>"
  have I3: "lruk_inv s3" using inv_alloc [OF I new] by (simp add: s3_def p_def)
  have hp: "heap s3 p = Some (LRUNode key val)" by (simp add: s3_def)
  have ts3: "current_timestamp_' s3 \<noteq> - 1" using ts by (simp add: s3_def)
  have P: "Put key val s = (case ResourceAccess p s3 of Inl e \<Rightarrow> (Inl e, s3) | Inr s4 \<Rightarrow> (Inr (), s4))"
    using new E by (simp add: Put_def Let_def s3_def p_def LRUNode_def cong: sum.case_cong)
  from ResourceAccess_inv [OF I3 hp ts3] obtain s4 n' where s4: "ResourceAccess p s3 = Inr s4"
    "lruk_inv s4" "heap s4 = (heap s3)(p \<mapsto> n')"
    "history_' n' = (if length (history_' (LRUNode key val)) < unat (k_' s3)
                     then history_' (LRUNode key val) else tl (history_' (LRUNode key val)))
                    @ [current_timestamp_' s3 + 1]"
    "cache_' s4 = cache_' s3" "k_' s4 = k_' s3"
    "current_timestamp_' s4 = current_timestamp_' s3 + 1"
    by (elim exE conjE)
  have len: "length (history_' n') = 1" using s4(4) K by (simp add: LRUNode_def s3_def)
  have "q \<notin> set (eviction_set_' s4)" for q
  proof
    assume "q \<in> set (eviction_set_' s4)"
    then obtain m where m: "heap s4 q = Some m" "is_full s4 m"
      using inv_member_full [OF s4(2), of q] by auto
    show False
    proof (cases "q = p")
      case True
      then have "m = n'" using m(1) s4(3) by simp
      then show False using m(2) len K by (simp add: is_full_def s4(6) s3_def)
    next
      case False
      then have "heap s q = Some m" using m(1) s4(3) by (simp add: s3_def)
      moreover have "is_full s m" using m(2) by (simp add: is_full_def s4(6) s3_def)
      ultimately have "q \<in> set (eviction_set_' s)" using inv_member_full [OF I, of q] by auto
      then show False using es by simp
    qed
  qed
  then have "eviction_set_' s4 = []" by (cases "eviction_set_' s4") auto
  moreover have "cache_' s4 = cache_' s @ [(key, next_addr s)]"
    using new by (simp add: s4(5) s3_def p_def update_fresh_key map_of_None_notin)
  moreover have "current_timestamp_' s4 = current_timestamp_' s + 1"
    by (simp add: s4(7) s3_def)
  moreover have "Put key val s = (Inr (), s4)" by (simp add: P s4(1))
  ultimately show ?thesis using s4(2) by simp
qed

lemma puts_grow:
  assumes I: "lruk_inv s" and es: "eviction_set_' s = []" and K: "2 \<le> unat (k_' s)"
    and d: "distinct ks" and new: "\<forall>k\<in>set ks. map_of (cache_' s) k = None"
    and ts: "unat (current_timestamp_' s) + length ks < 2 ^ 64"
  shows "size_cache (run (map (\<lambda>k. Call_Put k (f k)) ks) s) = size_cache s + length ks"
  using assms
proof (induction ks arbitrary: s)
  case Nil
  then show ?case by simp
next
  case (Cons k ks)
  have ne: "current_timestamp_' s \<noteq> - 1"
  proof
    assume "current_timestamp_' s = - 1"
    then have "unat (current_timestamp_' s) = 18446744073709551615"
      by (simp only: unat_max_word64)
    then show False using Cons.prems(6) by simp
  qed
  have knew: "map_of (cache_' s) k = None" using Cons.prems(5) by simp
  let ?s' = "snd (Put k (f k) s)"
  have P: "lruk_inv ?s'" "eviction_set_' ?s' = []"
    "cache_' ?s' = cache_' s @ [(k, next_addr s)]"
    "current_timestamp_' ?s' = current_timestamp_' s + 1"
    using Put_no_candidates [OF Cons.prems(1,2) knew ne Cons.prems(3)] by simp_all
  have "current_timestamp_' s + 1 \<noteq> 0" using ne by (metis add.commute add_eq_0_iff)
  then have "unat (current_timestamp_' s + 1) = Suc (unat (current_timestamp_' s))"
    by (simp add: unatSuc add.commute)
  then have ts': "unat (current_timestamp_' ?s') + length ks < 2 ^ 64"
    using Cons.prems(6) by (simp add: P(4))
  have new': "\<forall>k'\<in>set ks. map_of (cache_' ?s') k' = None"
    using Cons.prems(4,5) by (auto simp: P(3) map_add_def split: option.split)
  have K': "2 \<le> unat (k_' ?s')" using Cons.prems(3) by (simp add: Put_fields)
  have d': "distinct ks" using Cons.prems(4) by simp
  have "size_cache (run (map (\<lambda>k. Call_Put k (f k)) ks) ?s') = size_cache ?s' + length ks"
    using P(1,2) K' d' new' ts' by (rule Cons.IH)
  then show ?case by (simp add: size_cache_def P(3))
qed

text \<open>
  Claim C6. With \<open>K \<ge> 2\<close>: in every cache reached by a sequence of calls the eviction
  step returns, and it keeps every node with fewer than K recorded accesses, in the
  store and in the index; and putting any list of distinct keys (fewer than \<open>2^64\<close>)
  into a new cache leaves as many indexed entries as keys were put, whatever the
  capacity: the size grows beyond the capacity as soon as the list is longer.
\<close>

theorem partial_history_never_evicted:
  fixes f :: "'k::linorder \<Rightarrow> 'v"
  assumes "2 \<le> unat K" and "distinct ks" and "length ks < 2 ^ 64"
  shows "(\<forall>cs (s :: ('k, 'v) LRU_K_Cache) s' p n.
             s = run cs (LRU_K_Cache C K) \<and> Evict s = Inr s' \<and> heap s p = Some n \<and>
             length (history_' n) < unat K \<longrightarrow>
             heap s' p = Some n \<and> map_of (cache_' s') (key_' n) = Some p) \<and>
         (\<forall>cs. \<exists>s'. Evict (run cs (LRU_K_Cache C K :: ('k, 'v) LRU_K_Cache)) = Inr s') \<and>
         size_cache (run (map (\<lambda>k. Call_Put k (f k)) ks) (LRU_K_Cache C K)) = length ks"
proof -
  have K1: "0 < unat K" using assms(1) by simp
  have a: "heap s' p = Some n \<and> map_of (cache_' s') (key_' n) = Some p"
    if "s = run cs (LRU_K_Cache C K)" "Evict s = Inr s'" "heap s p = Some n"
      "length (history_' n) < unat K" for cs and s :: "('k, 'v) LRU_K_Cache" and s' p n
  proof -
    have I: "lruk_inv s" using that(1) K1 by (simp add: reachable_inv)
    have "\<not> is_full s n" using that(1,4) by (simp add: is_full_def run_k init_fields)
    then show ?thesis using Evict_keeps_partial [OF I that(2,3)] by simp
  qed
  have b: "\<exists>s'. Evict (run cs (LRU_K_Cache C K :: ('k, 'v) LRU_K_Cache)) = Inr s'" for cs
    using Evict_inv [OF reachable_inv [OF K1, of cs C]] by blast
  have "size_cache (run (map (\<lambda>k. Call_Put k (f k)) ks) (LRU_K_Cache C K))
        = size_cache (LRU_K_Cache C K :: ('k, 'v) LRU_K_Cache) + length ks"
  proof (rule puts_grow)
    show "lruk_inv (LRU_K_Cache C K)" using K1 by (rule inv_init)
    show "distinct ks" by (rule assms(2))
    show "eviction_set_' (LRU_K_Cache C K) = []" by (simp add: init_fields)
    show "2 \<le> unat (k_' (LRU_K_Cache C K))" using assms(1) by (simp add: init_fields)
    show "\<forall>k\<in>set ks. map_of (cache_' (LRU_K_Cache C K)) k = None" by (simp add: init_fields)
    show "unat (current_timestamp_' (LRU_K_Cache C K)) + length ks < 2 ^ 64"
      using assms(3) by (simp add: init_fields)
  qed
  then have c: "size_cache (run (map (\<lambda>k. Call_Put k (f k)) ks) (LRU_K_Cache C K)) = length ks"
    by (simp add: size_cache_def init_fields)
  show ?thesis using a b c by blast
qed

text \<open>
  The instance K = 2, capacity 1 with \<open>put(1,10); put(2,20)\<close>: the size is 2.
\<close>

theorem partial_history_never_evicted_witness:
  "2 \<le> unat (2 :: size_t) \<and> distinct [1 :: int, 2] \<and> length [1 :: int, 2] < 2 ^ 64 \<and>
   size_cache (run (map (\<lambda>k. Call_Put k (10 * k)) [1 :: int, 2]) (LRU_K_Cache 1 2)) = 2 \<and>
   unat (1 :: size_t) < 2"
proof -
  have h: "2 \<le> unat (2 :: size_t)" "distinct [1 :: int, 2]" "length [1 :: int, 2] < 2 ^ 64"
    by simp_all
  from partial_history_never_evicted [OF h, of 1 "\<lambda>k. 10 * k"]
  have "size_cache (run (map (\<lambda>k. Call_Put k (10 * k)) [1 :: int, 2]) (LRU_K_Cache 1 2))
          = length [1 :: int, 2]"
    by (elim conjE)
  then show ?thesis using h by simp
qed

subsection \<open>C7: the LRU example\<close>

text \<open>
  Claim C7. For distinct keys \<open>a\<close>, \<open>b\<close>, \<open>c\<close>, the LRU cache of capacity 2 is constructed,
  \<open>put(a,1); put(b,2); get(a); put(c,3)\<close> runs without undefined behaviour, and then
  \<open>get(b)\<close> returns nothing while \<open>get(a)\<close> returns 1 and \<open>get(c)\<close> returns 3.
\<close>

theorem LRUCache_example:
  fixes a b c :: 'k
  assumes "distinct [a, b, c]"
  shows "\<exists>s0 s. LRUCache 2 = Some s0 \<and>
           lru_run [Lru_put a (1::int), Lru_put b 2, Lru_get a, Lru_put c 3] s0 = Some s \<and>
           map_option fst (get b s) = Some None \<and>
           map_option fst (get a s) = Some (Some 1) \<and>
           map_option fst (get c s) = Some (Some 3)"
proof -
  let ?cs = "[Lru_put a (1::int), Lru_put b 2, Lru_get a, Lru_put c 3]"
  obtain s0 :: "('k, int) LRUCache" where s0: "LRUCache 2 = Some s0" "capacity s0 = 2" "abs_rel s0 []"
    using abs_init [of 2] by (elim exE conjE)
  have cs: "cap_size (capacity s0) = 2" by (simp add: cap_size_def s0(2))
  have sp: "spec_run 2 ?cs [] = [(c, 3), (a, 1)]"
    using assms by (simp add: spec_put_def spec_get_def lru_touch_def)
  from abs_run [OF s0(3), of ?cs] obtain s where s: "lru_run ?cs s0 = Some s"
    "abs_rel s (spec_run (cap_size (capacity s0)) ?cs [])"
    by (elim exE conjE)
  have sa: "abs_rel s [(c, 3), (a, 1)]" using s(2) by (simp only: cs sp)
  have "\<exists>s'. get k s = Some (map_of [(c, 3), (a, 1)] k, s')" for k
    using abs_get [OF sa, of k] by blast
  then have g: "map_option fst (get k s) = Some (map_of [(c, 3), (a, 1)] k)" for k
    by (metis fst_conv option.simps(9))
  have "map_option fst (get b s) = Some None" "map_option fst (get a s) = Some (Some 1)"
    "map_option fst (get c s) = Some (Some 3)"
    using assms by (auto simp: g)
  then show ?thesis using s0(1) s(1) by blast
qed

text \<open>
  The instance with the keys \<open>a\<close>, \<open>b\<close> and \<open>c\<close> as characters.
\<close>

theorem LRUCache_example_witness:
  "distinct [CHR ''a'', CHR ''b'', CHR ''c''] \<and>
   (\<exists>s0 s. LRUCache 2 = Some s0 \<and>
      lru_run [Lru_put CHR ''a'' (1::int), Lru_put CHR ''b'' 2, Lru_get CHR ''a'',
               Lru_put CHR ''c'' 3] s0 = Some s \<and>
      map_option fst (get CHR ''b'' s) = Some None \<and>
      map_option fst (get CHR ''a'' s) = Some (Some 1) \<and>
      map_option fst (get CHR ''c'' s) = Some (Some 3))"
proof -
  have d: "distinct [CHR ''a'', CHR ''b'', CHR ''c'']" by simp
  show ?thesis using d LRUCache_example [OF d] by (rule conjI)
qed

subsection \<open>C8: Remove\<close>

text \<open>
  Claim C8. In every cache \<open>s\<close> reached by a sequence of calls from construction with
  \<open>K \<ge> 1\<close>: when \<open>k\<close> is indexed at \<open>p\<close>, \<open>Remove\<close> returns true and leaves a cache in which
  \<open>k\<close> is not indexed, \<open>p\<close> is not in the ordering structure, the node is deleted, the
  size is one less, every other key is indexed as before, and \<open>Get\<close> of \<open>k\<close> returns
  nothing and changes nothing; when \<open>k\<close> is not indexed, \<open>Remove\<close> returns false and the
  cache is unchanged.
\<close>

theorem Remove_contract:
  assumes "0 < unat K" and "s = run cs (LRU_K_Cache C K)"
  shows "(\<forall>p. map_of (cache_' s) k = Some p \<longrightarrow>
            (\<exists>s'. Remove k s = (Inr True, s') \<and> map_of (cache_' s') k = None \<and>
                  p \<notin> set (eviction_set_' s') \<and> heap s' p = None \<and>
                  size_cache s' = size_cache s - 1 \<and>
                  (\<forall>k'. k' \<noteq> k \<longrightarrow> map_of (cache_' s') k' = map_of (cache_' s) k') \<and>
                  Get k s' = (Inr None, s'))) \<and>
         (map_of (cache_' s) k = None \<longrightarrow> Remove k s = (Inr False, s))"
proof -
  have I: "lruk_inv s" using assms by (simp add: reachable_inv)
  have "\<exists>s'. Remove k s = (Inr True, s') \<and> map_of (cache_' s') k = None \<and>
                  p \<notin> set (eviction_set_' s') \<and> heap s' p = None \<and>
                  size_cache s' = size_cache s - 1 \<and>
                  (\<forall>k'. k' \<noteq> k \<longrightarrow> map_of (cache_' s') k' = map_of (cache_' s) k') \<and>
                  Get k s' = (Inr None, s')"
    if p: "map_of (cache_' s) k = Some p" for p
  proof -
    define s' where "s' = s\<lparr>eviction_set_' := remove1 p (eviction_set_' s),
        cache_' := AList.delete k (cache_' s), heap := (heap s)(p := None)\<rparr>"
    have R: "Remove k s = (Inr True, s')"
      using Remove_present [OF I p] by (auto simp: s'_def)
    have a: "map_of (cache_' s') k = None" by (simp add: s'_def delete_conv')
    have b: "p \<notin> set (eviction_set_' s')"
      using inv_distinct_set [OF I] by (simp add: s'_def)
    have c: "size_cache s' = size_cache s - 1"
      using length_delete_present [OF invD_fst [OF I] p] by (simp add: s'_def size_cache_def)
    have d: "Get k s' = (Inr None, s')" using a by (simp add: Get_def)
    show ?thesis using R a b c d by (simp add: s'_def)
  qed
  moreover have "map_of (cache_' s) k = None \<longrightarrow> Remove k s = (Inr False, s)"
    by (simp add: Remove_def)
  ultimately show ?thesis by blast
qed

text \<open>
  The instance K = 2 after \<open>put(1,10); put(1,11); put(2,20); put(2,21)\<close>, removing the
  indexed key 1 and the absent key 5.
\<close>

theorem Remove_contract_witness:
  "0 < unat (2 :: size_t) \<and>
   map_of (cache_' (run [Call_Put (1::int) (10::int), Call_Put 1 11, Call_Put 2 20, Call_Put 2 21]
      (LRU_K_Cache 2 2))) 1 = Some 0 \<and>
   fst (Remove 1 (run [Call_Put (1::int) (10::int), Call_Put 1 11, Call_Put 2 20, Call_Put 2 21]
      (LRU_K_Cache 2 2))) = Inr True \<and>
   fst (Get 1 (snd (Remove 1 (run [Call_Put (1::int) (10::int), Call_Put 1 11, Call_Put 2 20,
      Call_Put 2 21] (LRU_K_Cache 2 2))))) = Inr None \<and>
   map_of (cache_' (run [Call_Put (1::int) (10::int), Call_Put 1 11, Call_Put 2 20, Call_Put 2 21]
      (LRU_K_Cache 2 2))) 5 = None \<and>
   Remove 5 (run [Call_Put (1::int) (10::int), Call_Put 1 11, Call_Put 2 20, Call_Put 2 21]
      (LRU_K_Cache 2 2))
     = (Inr False, run [Call_Put (1::int) (10::int), Call_Put 1 11, Call_Put 2 20, Call_Put 2 21]
      (LRU_K_Cache 2 2))"
proof -
  let ?s = "run [Call_Put (1::int) (10::int), Call_Put 1 11, Call_Put 2 20, Call_Put 2 21]
      (LRU_K_Cache 2 2)"
  have k: "0 < unat (2 :: size_t)" by simp
  have m: "map_of (cache_' ?s) 1 = Some 0" "map_of (cache_' ?s) 5 = None"
    unfolding trace_K2 by simp_all
  from Remove_contract [OF k refl, of _ 2 1] m(1)
  obtain s' where "Remove 1 ?s = (Inr True, s')" "Get 1 s' = (Inr None, s')" by blast
  then have a: "fst (Remove 1 ?s) = Inr True" "fst (Get 1 (snd (Remove 1 ?s))) = Inr None"
    by simp_all
  from Remove_contract [OF k refl, of _ 2 5] m(2)
  have b: "Remove 5 ?s = (Inr False, ?s)" by blast
  show ?thesis using k m a b by blast
qed

subsection \<open>C9: contains\<close>

lemma run_contains: "run (replicate n (Call_contains key)) s = s"
  by (induction n) (simp_all add: contains_def)

text \<open>
  Claim C9. \<open>contains\<close> returns the cache it was given, so any number of calls leaves
  the whole cache (clock, histories, index and ordering structure) unchanged, and a
  following \<open>Get\<close> has the result and the effect it has without them.
\<close>

theorem contains_is_pure:
  "snd (contains key s) = s \<and>
   run (replicate n (Call_contains key)) s = s \<and>
   Get k (run (replicate n (Call_contains key)) s) = Get k s"
  by (simp add: run_contains contains_def)

text \<open>
  The instance of three calls of \<open>contains(2)\<close> before \<open>get(1)\<close> on a new cache.
\<close>

theorem contains_is_pure_witness:
  "Get (1::int) (run (replicate 3 (Call_contains 2)) (LRU_K_Cache 2 2 :: (int, int) LRU_K_Cache))
     = Get 1 (LRU_K_Cache 2 2)"
  using contains_is_pure [of 2 "LRU_K_Cache 2 2 :: (int, int) LRU_K_Cache" 3 1] by (elim conjE)

subsection \<open>C10: the unconditional capacity bound of the LRU cache\<close>

lemma retrievable_keys:
  assumes "\<And>k. \<exists>s'. get k s = Some (map_of al k, s')"
  shows "{k. \<exists>v s'. get k s = Some (Some v, s')} = fst ` set al"
proof -
  have "(\<exists>v s'. get k s = Some (Some v, s')) = (map_of al k \<noteq> None)" for k
  proof -
    obtain s' where "get k s = Some (map_of al k, s')" using assms [of k] by blast
    then show ?thesis by (cases "map_of al k") auto
  qed
  then have "{k. \<exists>v s'. get k s = Some (Some v, s')} = dom (map_of al)"
    by (auto simp: dom_def)
  then show ?thesis by (simp add: dom_map_of_conv_image_fst)
qed

text \<open>
  Claim C10. For every capacity \<open>c \<ge> 1\<close> the LRU cache is constructed, and every
  sequence \<open>cs\<close> of puts and gets runs without undefined behaviour to a cache in which
  \<open>get\<close> returns, for every key, what the abstract recency list \<open>spec_run c cs []\<close>
  holds for it. That list moves a touched entry to the front and drops its last entry,
  the least recently used one, as soon as a put makes it longer than \<open>c\<close>; it never
  holds more than \<open>c\<close> entries, with no proviso. So the keys \<open>get\<close> retrieves are finitely
  many, at most \<open>c\<close>.
\<close>

theorem LRUCache_capacity_bound:
  fixes c :: "32 word"
  assumes "0 <s c"
  shows "\<exists>s0 :: ('k, 'v) LRUCache.
           LRUCache c = Some s0 \<and>
           (\<forall>cs. \<exists>s. lru_run cs s0 = Some s \<and>
                  (\<forall>k. \<exists>s'. get k s = Some (map_of (spec_run (nat (sint c)) cs []) k, s')) \<and>
                  length (spec_run (nat (sint c)) cs []) \<le> nat (sint c) \<and>
                  finite {k. \<exists>v s'. get k s = Some (Some v, s')} \<and>
                  card {k. \<exists>v s'. get k s = Some (Some v, s')} \<le> nat (sint c))"
proof -
  obtain s0 :: "('k, 'v) LRUCache" where s0: "LRUCache c = Some s0" "capacity s0 = c" "abs_rel s0 []"
    using abs_init [of c] by (elim exE conjE)
  have cs: "cap_size (capacity s0) = nat (sint c)"
    using scast_positive [OF assms] by (simp add: cap_size_def s0(2))
  have "\<exists>s. lru_run cs s0 = Some s \<and>
                  (\<forall>k. \<exists>s'. get k s = Some (map_of (spec_run (nat (sint c)) cs []) k, s')) \<and>
                  length (spec_run (nat (sint c)) cs []) \<le> nat (sint c) \<and>
                  finite {k. \<exists>v s'. get k s = Some (Some v, s')} \<and>
                  card {k. \<exists>v s'. get k s = Some (Some v, s')} \<le> nat (sint c)" for cs
  proof -
    let ?al = "spec_run (nat (sint c)) cs []"
    from abs_run [OF s0(3), of cs] obtain s where s: "lru_run cs s0 = Some s"
      "abs_rel s (spec_run (cap_size (capacity s0)) cs [])"
      by (elim exE conjE)
    have sa: "abs_rel s ?al" using s(2) by (simp only: cs)
    have g: "\<exists>s'. get k s = Some (map_of ?al k, s')" for k
      using abs_get [OF sa, of k] by blast
    have len: "length ?al \<le> nat (sint c)" by (rule spec_run_length) simp
    have r: "{k. \<exists>v s'. get k s = Some (Some v, s')} = fst ` set ?al"
      using g by (rule retrievable_keys)
    have "card (fst ` set ?al) \<le> length ?al"
      by (metis card_image_le card_length le_trans List.finite_set)
    then have "card {k. \<exists>v s'. get k s = Some (Some v, s')} \<le> nat (sint c)"
      using len by (simp add: r)
    moreover have "finite {k. \<exists>v s'. get k s = Some (Some v, s')}" by (simp add: r)
    ultimately show ?thesis using s(1) g len by blast
  qed
  then show ?thesis using s0(1) by blast
qed

text \<open>
  The instance of capacity 2 with \<open>put(1,10); put(2,20); put(3,30)\<close>.
\<close>

theorem LRUCache_capacity_bound_witness:
  "0 <s (2 :: 32 word) \<and>
   (\<exists>(s0 :: (int, int) LRUCache) s. LRUCache 2 = Some s0 \<and>
      lru_run [Lru_put 1 10, Lru_put 2 20, Lru_put 3 30] s0 = Some s \<and>
      card {k. \<exists>v s'. get k s = Some (Some v, s')} \<le> 2)"
proof -
  have p: "0 <s (2 :: 32 word)" by (simp add: word_sless_alt)
  from LRUCache_capacity_bound [OF p]
  obtain s0 :: "(int, int) LRUCache" where s0: "LRUCache 2 = Some s0"
    "\<forall>cs. \<exists>s. lru_run cs s0 = Some s \<and>
        (\<forall>k. \<exists>s'. get k s = Some (map_of (spec_run (nat (sint (2 :: 32 word))) cs []) k, s')) \<and>
        length (spec_run (nat (sint (2 :: 32 word))) cs []) \<le> nat (sint (2 :: 32 word)) \<and>
        finite {k. \<exists>v s'. get k s = Some (Some v, s')} \<and>
        card {k. \<exists>v s'. get k s = Some (Some v, s')} \<le> nat (sint (2 :: 32 word))"
    by (elim exE conjE)
  then obtain s where "lru_run [Lru_put 1 10, Lru_put 2 20, Lru_put 3 30] s0 = Some s"
    "card {k. \<exists>v s'. get k s = Some (Some v, s')} \<le> nat (sint (2 :: 32 word))"
    by blast
  then show ?thesis using p s0(1) by auto
qed

end
